theory Spec2Isabelle
  imports Complex_Main
begin

section \<open>RX front-end IQ-balance calibration (usrp\_gen\_rx\_fe\_cal\_table.cpp)\<close>

text \<open>
  A shallow embedding of \<^verbatim>\<open>host/utils/usrp_gen_rx_fe_cal_table.cpp\<close>.

  Conventions of the embedding.
  \<^item> A C++ \<^verbatim>\<open>double\<close> is a \<^typ>\<open>real\<close> and \<^verbatim>\<open>std::complex\<close> is \<^typ>\<open>complex\<close>.
    Infinities and NaN are not modelled. The sums of the loop over the frequencies (line 183)
    are rounded to double, since their rounding changes which frequencies are visited; the
    arithmetic of the search, whose rounding only moves the grid points slightly, is exact.
  \<^item> A thrown \<^verbatim>\<open>std::runtime_error\<close> is the \<open>Inl\<close> branch of a sum; the state
    reached when it was thrown is returned next to it.
  \<^item> The device behind \<^verbatim>\<open>uhd::usrp::multi_usrp\<close> is an abstract state \<open>'d\<close>; the
    calls the program makes on it are the fields of the record \<open>radio\<close>. Getters read
    the state, setters change it, \<^verbatim>\<open>recv\<close> and the system clock return a value and a
    new state.
  \<^item> The program state \<open>state\<close> holds the device, the sample buffer \<^verbatim>\<open>buff\<close>
    and \<open>trace\<close>. The trace is a history variable: it records the calls of the main thread
    that the properties speak about (thread creation, tuning, interruption, join, storing the
    results) and the suppression computed at every grid point, the value that the
    commented-out prints of lines 216 to 220 would show. Nothing in the program reads it.
  \<^item> Loops whose exit depends on run-time values are \<^theory_text>\<open>partial_function (option)\<close>:
    \<open>None\<close> is a loop that never exits.
  \<^item> Console output, the thread priority and the creation of the two streamers are not
    modelled. The two threads are modelled one by one, each with its own environment; how
    their steps interleave is not.
\<close>

subsection \<open>Errors, results and the history of visible steps\<close>

datatype error =
    Lock_timeout            \<comment> \<open>"timed out waiting for TX and/or RX LO to lock"\<close>
  | Unexpected_error_code nat \<comment> \<open>"Unexpected error code 0x..."\<close>
  | Short_read              \<comment> \<open>"did not get all the samples requested"\<close>
  | No_cal_antenna          \<comment> \<open>"This board does not have the CAL antenna option, ..."\<close>

text \<open>\<^verbatim>\<open>result_t\<close> of \<^verbatim>\<open>usrp_cal_utils.hpp\<close>, with the four fields \<^verbatim>\<open>main\<close> assigns
  (\<^verbatim>\<open>sup\<close> is written \<open>sup_dB\<close>: \<open>sup\<close> is the lattice operation of HOL).\<close>

record result_t =
  freq :: real
  real_corr :: real
  imag_corr :: real
  sup_dB :: real

datatype event =
    Ev_create_tx_thread real             \<comment> \<open>\<^verbatim>\<open>threads.create_thread(bind(&tx_thread, usrp, tx_wave_ampl))\<close>\<close>
  | Ev_set_rx_freq real                  \<comment> \<open>\<^verbatim>\<open>usrp->set_rx_freq\<close> of \<^verbatim>\<open>tune_rx_and_tx\<close>\<close>
  | Ev_suppression real real complex real \<comment> \<open>phase, amplitude, correction and the suppression measured there\<close>
  | Ev_interrupt_all                     \<comment> \<open>\<^verbatim>\<open>threads.interrupt_all()\<close>\<close>
  | Ev_join_all                          \<comment> \<open>\<^verbatim>\<open>threads.join_all()\<close>\<close>
  | Ev_store_results "result_t list"     \<comment> \<open>\<^verbatim>\<open>store_results(usrp, results, "RX", "rx")\<close>\<close>

subsection \<open>The device interface\<close>

record 'd radio =
  get_rx_antennas :: "'d \<Rightarrow> string list"
  get_tx_antennas :: "'d \<Rightarrow> string list"
  set_rx_antenna :: "string \<Rightarrow> 'd \<Rightarrow> 'd"
  set_tx_antenna :: "string \<Rightarrow> 'd \<Rightarrow> 'd"
  set_rx_rate :: "real \<Rightarrow> 'd \<Rightarrow> 'd"
  set_tx_rate :: "real \<Rightarrow> 'd \<Rightarrow> 'd"
  set_tx_gain :: "real \<Rightarrow> 'd \<Rightarrow> 'd"
  set_rx_gain :: "real \<Rightarrow> 'd \<Rightarrow> 'd"
  get_rx_freq_range :: "'d \<Rightarrow> real \<times> real"
  set_rx_freq :: "real \<Rightarrow> 'd \<Rightarrow> 'd"
  set_tx_freq :: "real \<Rightarrow> 'd \<Rightarrow> 'd"
  get_rx_freq :: "'d \<Rightarrow> real"
  get_tx_freq :: "'d \<Rightarrow> real"
  get_rx_rate :: "'d \<Rightarrow> real"
  tx_lo_locked :: "'d \<Rightarrow> bool"
  rx_lo_locked :: "'d \<Rightarrow> bool"
  set_rx_iq_balance :: "complex \<Rightarrow> 'd \<Rightarrow> 'd"
  issue_stream_cmd :: "nat \<Rightarrow> 'd \<Rightarrow> 'd"
  recv :: "nat \<Rightarrow> 'd \<Rightarrow> (complex list \<times> nat) \<times> 'd"
  sleep_ms :: "nat \<Rightarrow> 'd \<Rightarrow> 'd"
  get_system_time :: "'d \<Rightarrow> int \<times> 'd"

text \<open>
  \<^item> \<open>tx_lo_locked\<close>, \<open>rx_lo_locked\<close>: \<^verbatim>\<open>get_tx_sensor("lo_locked").to_bool()\<close> and its RX twin.
  \<^item> \<open>recv r n d\<close>: \<^verbatim>\<open>rx_stream->recv(&buff.front(), n, md)\<close>. It yields the samples the
    device delivers and \<^verbatim>\<open>md.error_code\<close>; a streamer never writes more than the \<open>n\<close>
    samples it was asked for, so the program keeps the first \<open>n\<close> of them (see \<open>capture_samples\<close>).
  \<^item> \<open>get_system_time\<close>: \<^verbatim>\<open>boost::get_system_time()\<close>, in microseconds; reading the clock
    is the step that lets the device state move on while the program polls.
\<close>

record 'd state =
  dev :: 'd
  buff :: "complex list"
  trace :: "event list"

text \<open>The constants and the estimator of \<^verbatim>\<open>usrp_cal_utils.hpp\<close>, a header that is not
  among the sources: they are parameters of the model.\<close>

record cal_utils =
  tau :: real
  num_search_steps :: nat
  num_search_iters :: nat
  compute_tone_dbrms :: "complex list \<Rightarrow> real \<Rightarrow> real"

text \<open>The values of the command line after \<^verbatim>\<open>po::notify\<close>.\<close>

record options =
  help_flag :: bool
  verbose_flag :: bool
  rate :: real
  tx_wave_ampl :: real
  tx_offset :: real
  tx_gain :: real
  rx_gain :: real
  freq_step :: real
  nsamps :: nat

text \<open>Modelled from the spec: \<^verbatim>\<open>uhd::rx_metadata_t::ERROR_CODE_NONE\<close> is declared in a header
  that is not among the sources; the spec calls every other value a non-zero error code.\<close>

definition ERROR_CODE_NONE :: nat where
  "ERROR_CODE_NONE = 0"

subsection \<open>Data capture routine\<close>

definition capture_samples :: "'d radio \<Rightarrow> 'd state \<Rightarrow> (error + unit) \<times> 'd state" where
  "capture_samples r s =
    (let d1 = issue_stream_cmd r (length (buff s)) (dev s) in
     case recv r (length (buff s)) d1 of
       ((samps, error_code), d2) \<Rightarrow>
         let num_rx_samps = length (take (length (buff s)) samps);
             s' = s\<lparr>dev := d2,
                    buff := take (length (buff s)) samps @ drop num_rx_samps (buff s)\<rparr>
         in if error_code \<noteq> ERROR_CODE_NONE then (Inl (Unexpected_error_code error_code), s')
            else if num_rx_samps \<noteq> length (buff s) then (Inl Short_read, s')
            else (Inr (), s'))"

subsection \<open>Tune RX and TX routine\<close>

partial_function (option) wait_lo_locked ::
  "'d radio \<Rightarrow> int \<Rightarrow> 'd state \<Rightarrow> ((error + unit) \<times> 'd state) option" where
  "wait_lo_locked r start s =
    (if \<not> tx_lo_locked r (dev s) \<or> \<not> rx_lo_locked r (dev s) then
       (case get_system_time r (dev s) of
          (now, d') \<Rightarrow>
            if now > start + 100000 then Some (Inl Lock_timeout, s\<lparr>dev := d'\<rparr>)
            else wait_lo_locked r start (s\<lparr>dev := d'\<rparr>))
     else Some (Inr (), s))"

definition tune_rx_and_tx ::
  "'d radio \<Rightarrow> real \<Rightarrow> real \<Rightarrow> 'd state \<Rightarrow> ((error + real) \<times> 'd state) option" where
  "tune_rx_and_tx r rx_lo_freq tx_offs s =
    (let d1 = set_rx_freq r rx_lo_freq (dev s);
         d2 = set_tx_freq r (get_rx_freq r d1 - tx_offs) d1;
         d3 = sleep_ms r 50 d2
     in case get_system_time r d3 of
          (start, d4) \<Rightarrow>
            (case wait_lo_locked r start
                    (s\<lparr>dev := d4, trace := trace s @ [Ev_set_rx_freq rx_lo_freq]\<rparr>) of
               None \<Rightarrow> None
             | Some (Inl e, s') \<Rightarrow> Some (Inl e, s')
             | Some (Inr _, s') \<Rightarrow> Some (Inr (get_rx_freq r (dev s')), s')))"

subsection \<open>The search for the best correction at one frequency\<close>

record search_state =
  phase_corr_start :: real
  phase_corr_stop :: real
  phase_corr_step :: real
  ampl_corr_start :: real
  ampl_corr_stop :: real
  ampl_corr_step :: real
  best_correction :: complex
  best_suppression :: real
  best_phase_corr :: real
  best_ampl_corr :: real

text \<open>Lines 187 to 190. The two steps are uninitialised there and assigned before they are
  read; \<open>0\<close> stands for the value never read.\<close>

definition init_search :: search_state where
  "init_search =
    \<lparr>phase_corr_start = - (3/10), phase_corr_stop = 3/10, phase_corr_step = 0,
     ampl_corr_start = - (3/10), ampl_corr_stop = 3/10, ampl_corr_step = 0,
     best_correction = 0, best_suppression = 0, best_phase_corr = 0, best_ampl_corr = 0\<rparr>"

text \<open>Lines 206 to 214: the suppression read off the buffer just captured.\<close>

definition measured_suppression :: "'d radio \<Rightarrow> cal_utils \<Rightarrow> 'd state \<Rightarrow> real" where
  "measured_suppression r c s =
    (let actual_rx_rate = get_rx_rate r (dev s);
         actual_tx_freq = get_tx_freq r (dev s);
         actual_rx_freq = get_rx_freq r (dev s);
         bb_tone_freq = actual_tx_freq - actual_rx_freq;
         bb_imag_freq = - bb_tone_freq;
         tone_dbrms = compute_tone_dbrms c (buff s) (bb_tone_freq / actual_rx_rate);
         imag_dbrms = compute_tone_dbrms c (buff s) (bb_imag_freq / actual_rx_rate)
     in tone_dbrms - imag_dbrms)"

text \<open>Lines 222 to 227.\<close>

definition update_best :: "search_state \<Rightarrow> real \<Rightarrow> real \<Rightarrow> complex \<Rightarrow> real \<Rightarrow> search_state" where
  "update_best st phase_corr ampl_corr correction suppression =
    (if suppression > best_suppression st
     then st\<lparr>best_correction := correction, best_suppression := suppression,
             best_phase_corr := phase_corr, best_ampl_corr := ampl_corr\<rparr>
     else st)"

text \<open>Lines 200 to 227: the body of the two nested loops at one grid point.\<close>

definition search_point ::
  "'d radio \<Rightarrow> cal_utils \<Rightarrow> real \<Rightarrow> real \<Rightarrow> search_state \<Rightarrow> 'd state
     \<Rightarrow> (error + search_state) \<times> 'd state" where
  "search_point r c phase_corr ampl_corr st s =
    (let correction = rcis (ampl_corr + 1) (phase_corr * tau c);
         s1 = s\<lparr>dev := set_rx_iq_balance r correction (dev s)\<rparr>
     in case capture_samples r s1 of
          (Inl e, s2) \<Rightarrow> (Inl e, s2)
        | (Inr _, s2) \<Rightarrow>
            let suppression = measured_suppression r c s2;
                s3 = s2\<lparr>trace := trace s2 @
                       [Ev_suppression phase_corr ampl_corr correction suppression]\<rparr>
            in (Inr (update_best st phase_corr ampl_corr correction suppression), s3))"

text \<open>Line 198: the inner loop, over the amplitude correction.\<close>

partial_function (option) ampl_corr_loop ::
  "'d radio \<Rightarrow> cal_utils \<Rightarrow> real \<Rightarrow> real \<Rightarrow> search_state \<Rightarrow> 'd state
     \<Rightarrow> ((error + search_state) \<times> 'd state) option" where
  "ampl_corr_loop r c phase_corr ampl_corr st s =
    (if ampl_corr \<le> ampl_corr_stop st + ampl_corr_step st / 2 then
       (case search_point r c phase_corr ampl_corr st s of
          (Inl e, s') \<Rightarrow> Some (Inl e, s')
        | (Inr st', s') \<Rightarrow>
            ampl_corr_loop r c phase_corr (ampl_corr + ampl_corr_step st') st' s')
     else Some (Inr st, s))"

text \<open>Line 197: the outer loop, over the phase correction.\<close>

partial_function (option) phase_corr_loop ::
  "'d radio \<Rightarrow> cal_utils \<Rightarrow> real \<Rightarrow> search_state \<Rightarrow> 'd state
     \<Rightarrow> ((error + search_state) \<times> 'd state) option" where
  "phase_corr_loop r c phase_corr st s =
    (if phase_corr \<le> phase_corr_stop st + phase_corr_step st / 2 then
       (case ampl_corr_loop r c phase_corr (ampl_corr_start st) st s of
          None \<Rightarrow> None
        | Some (Inl e, s') \<Rightarrow> Some (Inl e, s')
        | Some (Inr st', s') \<Rightarrow>
            phase_corr_loop r c (phase_corr + phase_corr_step st') st' s')
     else Some (Inr st, s))"

text \<open>Lines 194 to 238: one round of the search.\<close>

definition search_iter ::
  "'d radio \<Rightarrow> cal_utils \<Rightarrow> search_state \<Rightarrow> 'd state
     \<Rightarrow> ((error + search_state) \<times> 'd state) option" where
  "search_iter r c st s =
    (let st1 = st\<lparr>phase_corr_step :=
                    (phase_corr_stop st - phase_corr_start st) / real (num_search_steps c - 1),
                  ampl_corr_step :=
                    (ampl_corr_stop st - ampl_corr_start st) / real (num_search_steps c - 1)\<rparr>
     in case phase_corr_loop r c (phase_corr_start st1) st1 s of
          None \<Rightarrow> None
        | Some (Inl e, s') \<Rightarrow> Some (Inl e, s')
        | Some (Inr st2, s') \<Rightarrow>
            Some (Inr (st2\<lparr>phase_corr_start := best_phase_corr st2 - phase_corr_step st2,
                          phase_corr_stop := best_phase_corr st2 + phase_corr_step st2,
                          ampl_corr_start := best_ampl_corr st2 - ampl_corr_step st2,
                          ampl_corr_stop := best_ampl_corr st2 + ampl_corr_step st2\<rparr>), s'))"

text \<open>Line 192: \<open>search_iters r c i st s\<close> is the state after the rounds \<open>0, \<dots>, i - 1\<close>.\<close>

fun search_iters ::
  "'d radio \<Rightarrow> cal_utils \<Rightarrow> nat \<Rightarrow> search_state \<Rightarrow> 'd state
     \<Rightarrow> ((error + search_state) \<times> 'd state) option" where
  "search_iters r c 0 st s = Some (Inr st, s)"
| "search_iters r c (Suc i) st s =
    (case search_iters r c i st s of
       None \<Rightarrow> None
     | Some (Inl e, s') \<Rightarrow> Some (Inl e, s')
     | Some (Inr st', s') \<Rightarrow> search_iter r c st' s')"

subsection \<open>Double arithmetic in the loop over the frequencies\<close>

text \<open>The loop of line 183 adds \<^verbatim>\<open>freq_step\<close> to \<^verbatim>\<open>rx_lo_i\<close> in double arithmetic, and
  the rounding of these sums decides how many frequencies it visits. So the sums of that line
  are rounded as IEEE 754 binary64 rounds them: to the nearest number with a significand of 53
  bits, ties to the even significand (overflow and subnormal numbers are not modelled: the
  frequencies are far from both). \<open>binary_exponent x\<close> is the exponent \<open>e\<close> with
  \<open>2 ^ e \<le> x < 2 ^ (e + 1)\<close>. A subtraction \<open>a - b\<close> of doubles is the addition of \<open>- b\<close>.\<close>

function binary_exponent :: "real \<Rightarrow> int" where
  "binary_exponent x =
     (if x \<le> 0 then 0
      else if 2 \<le> x then binary_exponent (x / 2) + 1
      else if x < 1 then binary_exponent (x * 2) - 1
      else 0)"
  by auto
termination
proof (relation "measure (\<lambda>x. if 2 \<le> x then nat \<lfloor>log 2 x\<rfloor>
                                else if 0 < x \<and> x < 1 then nat \<lceil>- log 2 x\<rceil> else 0)")
  show "wf (measure (\<lambda>x. if 2 \<le> x then nat \<lfloor>log 2 x\<rfloor>
                                else if 0 < x \<and> x < 1 then nat \<lceil>- log 2 x\<rceil> else 0))"
    by simp
next
  fix x :: real
  assume a: "\<not> x \<le> 0" "2 \<le> x"
  have l: "log 2 (x / 2) = log 2 x - 1" using a by (simp add: log_divide)
  have "1 \<le> log 2 x" using a by (simp add: le_log_iff)
  then have f: "1 \<le> \<lfloor>log 2 x\<rfloor>" by (simp add: le_floor_iff)
  have "\<lfloor>log 2 (x / 2)\<rfloor> = \<lfloor>log 2 x\<rfloor> - 1" unfolding l by simp
  with f a show "(x / 2, x) \<in> measure (\<lambda>x. if 2 \<le> x then nat \<lfloor>log 2 x\<rfloor>
                                else if 0 < x \<and> x < 1 then nat \<lceil>- log 2 x\<rceil> else 0)"
    by (auto simp: not_le)
next
  fix x :: real
  assume a: "\<not> x \<le> 0" "\<not> 2 \<le> x" "x < 1"
  have l: "log 2 (x * 2) = log 2 x + 1" using a by (simp add: log_mult)
  have "log 2 x < 0" using a by (simp add: log_less_zero_cancel_iff)
  then have c: "1 \<le> \<lceil>- log 2 x\<rceil>" by (simp add: le_ceiling_iff)
  have "\<lceil>- log 2 (x * 2)\<rceil> = \<lceil>- log 2 x\<rceil> - 1" unfolding l by simp
  with c a show "(x * 2, x) \<in> measure (\<lambda>x. if 2 \<le> x then nat \<lfloor>log 2 x\<rfloor>
                                else if 0 < x \<and> x < 1 then nat \<lceil>- log 2 x\<rceil> else 0)"
    by (auto simp: not_le)
qed

declare binary_exponent.simps [simp del]

definition round_even :: "real \<Rightarrow> int" where
  "round_even y =
     (let f = \<lfloor>y\<rfloor>; d = y - of_int f
      in if d < 1 / 2 then f else if 1 / 2 < d then f + 1 else if even f then f else f + 1)"

definition round_double :: "real \<Rightarrow> real" where
  "round_double x =
     (if x = 0 then 0
      else let u = 2 powi (binary_exponent \<bar>x\<bar> - 52) in of_int (round_even (x / u)) * u)"

definition double_add :: "real \<Rightarrow> real \<Rightarrow> real" where
  "double_add a b = round_double (a + b)"

subsection \<open>The sweep over the LO frequencies\<close>

text \<open>Lines 241 to 248.\<close>

definition keep_result :: "real \<Rightarrow> search_state \<Rightarrow> result_t list \<Rightarrow> result_t list" where
  "keep_result rx_lo st results =
    (if best_suppression st > 30
     then results @ [\<lparr>freq = rx_lo, real_corr = Re (best_correction st),
                      imag_corr = Im (best_correction st), sup_dB = best_suppression st\<rparr>]
     else results)"

text \<open>Lines 184 to 252: the body of the sweep at one frequency.\<close>

definition sweep_body ::
  "'d radio \<Rightarrow> cal_utils \<Rightarrow> options \<Rightarrow> real \<Rightarrow> result_t list \<Rightarrow> 'd state
     \<Rightarrow> ((error + result_t list) \<times> 'd state) option" where
  "sweep_body r c opts rx_lo_i results s =
    (case tune_rx_and_tx r rx_lo_i (tx_offset opts) s of
       None \<Rightarrow> None
     | Some (Inl e, s1) \<Rightarrow> Some (Inl e, s1)
     | Some (Inr rx_lo, s1) \<Rightarrow>
         (case search_iters r c (num_search_iters c) init_search s1 of
            None \<Rightarrow> None
          | Some (Inl e, s2) \<Rightarrow> Some (Inl e, s2)
          | Some (Inr st, s2) \<Rightarrow> Some (Inr (keep_result rx_lo st results), s2)))"

text \<open>Line 183.\<close>

partial_function (option) rx_lo_loop ::
  "'d radio \<Rightarrow> cal_utils \<Rightarrow> options \<Rightarrow> real \<Rightarrow> real \<Rightarrow> result_t list \<Rightarrow> 'd state
     \<Rightarrow> ((error + result_t list) \<times> 'd state) option" where
  "rx_lo_loop r c opts rx_lo_i range_stop results s =
    (if rx_lo_i < double_add range_stop (- 50000000) then
       (case sweep_body r c opts rx_lo_i results s of
          None \<Rightarrow> None
        | Some (Inl e, s') \<Rightarrow> Some (Inl e, s')
        | Some (Inr results', s') \<Rightarrow>
            rx_lo_loop r c opts (double_add rx_lo_i (freq_step opts)) range_stop results' s')
     else Some (Inr results, s))"

subsection \<open>Main\<close>

text \<open>Lines 157 to 166: the antennas, the sample rates and the gains.\<close>

definition configure :: "'d radio \<Rightarrow> options \<Rightarrow> 'd \<Rightarrow> 'd" where
  "configure r opts d =
    (let d1 = set_rx_antenna r ''CAL'' d;
         d2 = set_tx_antenna r ''CAL'' d1;
         d3 = set_rx_rate r (rate opts) d2;
         d4 = set_tx_rate r (rate opts) d3;
         d5 = set_tx_gain r (tx_gain opts) d4
     in set_rx_gain r (rx_gain opts) d5)"

text \<open>The body of \<^verbatim>\<open>UHD_SAFE_MAIN\<close>, from the parsed options on; \<open>dev s\<close> is the device
  that \<^verbatim>\<open>multi_usrp::make(args)\<close> returns. \<open>Inr\<close> carries the value returned (\<^verbatim>\<open>~0\<close> is
  \<open>- 1\<close>), \<open>Inl\<close> the exception that leaves the body.\<close>

definition UHD_SAFE_MAIN ::
  "'d radio \<Rightarrow> cal_utils \<Rightarrow> options \<Rightarrow> 'd state \<Rightarrow> ((error + int) \<times> 'd state) option" where
  "UHD_SAFE_MAIN r c opts s =
    (if help_flag opts then Some (Inr (- 1), s)
     else if \<not> (''CAL'' \<in> set (get_rx_antennas r (dev s)))
             \<or> \<not> (''CAL'' \<in> set (get_tx_antennas r (dev s)))
     then Some (Inl No_cal_antenna, s)
     else
       let s1 = s\<lparr>dev := configure r opts (dev s), buff := replicate (nsamps opts) 0,
                  trace := trace s @ [Ev_create_tx_thread (tx_wave_ampl opts)]\<rparr>;
           freq_range = get_rx_freq_range r (dev s1)
       in case rx_lo_loop r c opts (double_add (fst freq_range) 50000000) (snd freq_range) [] s1 of
            None \<Rightarrow> None
          | Some (Inl e, s2) \<Rightarrow> Some (Inl e, s2)
          | Some (Inr results, s2) \<Rightarrow>
              Some (Inr 0, s2\<lparr>trace := trace s2 @
                      [Ev_interrupt_all, Ev_join_all, Ev_store_results results]\<rparr>))"

subsection \<open>Transmit thread\<close>

record tx_metadata_t =
  has_time_spec :: bool
  end_of_burst :: bool

record 't tx_streamer =
  get_max_num_samps :: "'t \<Rightarrow> nat"
  send :: "complex list \<Rightarrow> nat \<Rightarrow> tx_metadata_t \<Rightarrow> 't \<Rightarrow> 't"
  interruption_requested :: "'t \<Rightarrow> bool \<times> 't"

text \<open>Lines 51 to 56. The thread sees the rest of the program only through
  \<^verbatim>\<open>interruption_requested()\<close>, which is part of its environment \<open>'t\<close>.\<close>

partial_function (option) tx_send_loop ::
  "'t tx_streamer \<Rightarrow> real \<Rightarrow> complex list \<Rightarrow> tx_metadata_t \<Rightarrow> 't \<Rightarrow> (complex list \<times> 't) option" where
  "tx_send_loop tx ampl buf md t =
    (case interruption_requested tx t of
       (requested, t1) \<Rightarrow>
         if \<not> requested then
           (let buf' = map (\<lambda>_. complex_of_real ampl) buf
            in tx_send_loop tx ampl buf' md (send tx buf' (length buf') md t1))
         else Some (buf, t1))"

definition tx_thread :: "'t tx_streamer \<Rightarrow> real \<Rightarrow> 't \<Rightarrow> 't option" where
  "tx_thread tx ampl t =
    (let md = \<lparr>has_time_spec = False, end_of_burst = False\<rparr>;
         buf = replicate (get_max_num_samps tx t * 10) 0
     in case tx_send_loop tx ampl buf md t of
          None \<Rightarrow> None
        | Some (buf', t1) \<Rightarrow> Some (send tx [] 0 (md\<lparr>end_of_burst := True\<rparr>) t1))"

subsection \<open>A simulated device\<close>

text \<open>A device to run the program on. Its LOs are locked or not as \<open>locked\<close> says; its
  TX LO follows the RX LO at the default offset of 934.4 kHz and its sample rate is 12.5 MS/s;
  each capture delivers all samples but \<open>missing\<close> of them, with the error code \<open>code\<close>;
  reading the clock takes 60 ms.\<close>

record sim_dev =
  sim_time :: int
  sim_rx_freq :: real

definition sim_radio :: "bool \<Rightarrow> nat \<Rightarrow> nat \<Rightarrow> real \<times> real \<Rightarrow> sim_dev radio" where
  "sim_radio locked missing code rng =
    \<lparr>get_rx_antennas = (\<lambda>d. [''TX/RX'', ''RX2'', ''CAL'']),
     get_tx_antennas = (\<lambda>d. [''TX/RX'', ''CAL'']),
     set_rx_antenna = (\<lambda>a d. d),
     set_tx_antenna = (\<lambda>a d. d),
     set_rx_rate = (\<lambda>x d. d),
     set_tx_rate = (\<lambda>x d. d),
     set_tx_gain = (\<lambda>x d. d),
     set_rx_gain = (\<lambda>x d. d),
     get_rx_freq_range = (\<lambda>d. rng),
     set_rx_freq = (\<lambda>f d. d\<lparr>sim_rx_freq := f\<rparr>),
     set_tx_freq = (\<lambda>f d. d),
     get_rx_freq = sim_rx_freq,
     get_tx_freq = (\<lambda>d. sim_rx_freq d - 934400),
     get_rx_rate = (\<lambda>d. 12500000),
     tx_lo_locked = (\<lambda>d. locked),
     rx_lo_locked = (\<lambda>d. locked),
     set_rx_iq_balance = (\<lambda>x d. d),
     issue_stream_cmd = (\<lambda>n d. d),
     recv = (\<lambda>n d. ((replicate (n - missing) 1, code), d)),
     sleep_ms = (\<lambda>ms d. d\<lparr>sim_time := sim_time d + 1000 * int ms\<rparr>),
     get_system_time = (\<lambda>d. (sim_time d, d\<lparr>sim_time := sim_time d + 60000\<rparr>))\<rparr>"

definition sim_dev0 :: sim_dev where
  "sim_dev0 = \<lparr>sim_time = 0, sim_rx_freq = 0\<rparr>"

definition sim_state :: "nat \<Rightarrow> sim_dev state" where
  "sim_state n = \<lparr>dev = sim_dev0, buff = replicate n 0, trace = []\<rparr>"

text \<open>The constants of the header, and an estimator that reports \<open>v\<close> dB at negative
  frequencies and \<open>0\<close> dB elsewhere: on the simulated device the tone lies at a negative
  baseband frequency, so every suppression measured is \<open>v\<close>. The UHD distribution has
  \<^verbatim>\<open>tau = 6.28318531\<close>, five search steps and seven search iterations.\<close>

definition sim_utils :: "nat \<Rightarrow> nat \<Rightarrow> real \<Rightarrow> cal_utils" where
  "sim_utils steps iters v =
    \<lparr>tau = 628318531 / 100000000, num_search_steps = steps, num_search_iters = iters,
     compute_tone_dbrms = (\<lambda>b f. if f < 0 then v else 0)\<rparr>"

text \<open>The default values of the options.\<close>

definition default_options :: options where
  "default_options =
    \<lparr>help_flag = False, verbose_flag = False, rate = 12500000, tx_wave_ampl = 7/10,
     tx_offset = 934400, tx_gain = 0, rx_gain = 0, freq_step = 10000000, nsamps = 10000\<rparr>"

subsection \<open>Observations on a run\<close>

text \<open>What a run added to the history, the grid points it measured and the frequencies it
  tuned to; the best candidate and the window held in a search state; and the best candidate
  as the comparison of line 222 selects it from a list of measurements.\<close>

type_synonym measurement = "real \<times> real \<times> complex \<times> real"

fun measurements :: "event list \<Rightarrow> measurement list" where
  "measurements [] = []"
| "measurements (Ev_suppression p a x v # es) = (p, a, x, v) # measurements es"
| "measurements (e # es) = measurements es"

fun tuned_freqs :: "event list \<Rightarrow> real list" where
  "tuned_freqs [] = []"
| "tuned_freqs (Ev_set_rx_freq f # es) = f # tuned_freqs es"
| "tuned_freqs (e # es) = tuned_freqs es"

definition search_event :: "'d radio \<Rightarrow> cal_utils \<Rightarrow> event \<Rightarrow> bool" where
  "search_event r c e =
     (\<exists>p a s. e = Ev_suppression p a (rcis (a + 1) (p * tau c)) (measured_suppression r c s))"

definition new_events :: "'d state \<Rightarrow> 'd state \<Rightarrow> event list" where
  "new_events s s' = drop (length (trace s)) (trace s')"

definition suppression_of :: "measurement \<Rightarrow> real" where
  "suppression_of m = snd (snd (snd m))"

definition best_of :: "search_state \<Rightarrow> measurement" where
  "best_of st = (best_phase_corr st, best_ampl_corr st, best_correction st, best_suppression st)"

definition window_of :: "search_state \<Rightarrow> (real \<times> real \<times> real) \<times> (real \<times> real \<times> real)" where
  "window_of st = ((phase_corr_start st, phase_corr_stop st, phase_corr_step st),
                   (ampl_corr_start st, ampl_corr_stop st, ampl_corr_step st))"

fun best_after :: "measurement \<Rightarrow> measurement list \<Rightarrow> measurement" where
  "best_after b [] = b"
| "best_after b (m # ms) =
     best_after (if suppression_of m > suppression_of b then m else b) ms"

text \<open>What the loops of a round leave behind: only measurements are added to the history,
  the best candidate is the one line 222 selects from them, and the window is untouched.\<close>

definition search_post ::
  "'d radio \<Rightarrow> cal_utils \<Rightarrow> search_state \<Rightarrow> 'd state
     \<Rightarrow> (error + search_state) \<times> 'd state \<Rightarrow> bool" where
  "search_post r c st s y =
     (\<exists>evs. trace (snd y) = trace s @ evs \<and> list_all (search_event r c) evs
        \<and> (\<forall>st'. fst y = Inr st' \<longrightarrow>
              best_of st' = best_after (best_of st) (measurements evs)
            \<and> window_of st' = window_of st))"

text \<open>Lines 194 and 195.\<close>

definition with_steps :: "cal_utils \<Rightarrow> search_state \<Rightarrow> search_state" where
  "with_steps c st =
     st\<lparr>phase_corr_step :=
          (phase_corr_stop st - phase_corr_start st) / real (num_search_steps c - 1),
        ampl_corr_step :=
          (ampl_corr_stop st - ampl_corr_start st) / real (num_search_steps c - 1)\<rparr>"

text \<open>A device on which no capture fails, and one on which every tuning locks.\<close>

definition capture_ok :: "'d radio \<Rightarrow> bool" where
  "capture_ok r = (\<forall>s. fst (capture_samples r s) = Inr ())"

definition tune_ok :: "'d radio \<Rightarrow> bool" where
  "tune_ok r = (\<forall>f offs s. \<exists>rx s'. tune_rx_and_tx r f offs s = Some (Inr rx, s'))"

text \<open>A window with a positive width on both axes.\<close>

definition proper_window :: "search_state \<Rightarrow> bool" where
  "proper_window st \<longleftrightarrow> phase_corr_start st < phase_corr_stop st \<and> ampl_corr_start st < ampl_corr_stop st"

definition phase_width :: "search_state \<Rightarrow> real" where
  "phase_width st = phase_corr_stop st - phase_corr_start st"

definition ampl_width :: "search_state \<Rightarrow> real" where
  "ampl_width st = ampl_corr_stop st - ampl_corr_start st"

definition final_search_state ::
  "((error + search_state) \<times> 'd state) option \<Rightarrow> search_state option" where
  "final_search_state y = (case y of Some (Inr st, s) \<Rightarrow> Some st | _ \<Rightarrow> None)"

definition correction_of :: "measurement \<Rightarrow> complex" where
  "correction_of m = fst (snd (snd m))"

fun stored_results :: "event list \<Rightarrow> result_t list list" where
  "stored_results [] = []"
| "stored_results (Ev_store_results res # es) = res # stored_results es"
| "stored_results (e # es) = stored_results es"

definition sweep_event :: "'d radio \<Rightarrow> cal_utils \<Rightarrow> event \<Rightarrow> bool" where
  "sweep_event r c e = ((\<exists>f. e = Ev_set_rx_freq f) \<or> search_event r c e)"

text \<open>The value of \<^verbatim>\<open>rx_lo_i\<close> after \<open>i\<close> passes of the loop of line 183 that starts at
  \<open>x\<close>.\<close>

primrec sweep_value :: "real \<Rightarrow> nat \<Rightarrow> real \<Rightarrow> real" where
  "sweep_value step 0 x = x"
| "sweep_value step (Suc i) x = sweep_value step i (double_add x step)"

definition started :: "'d radio \<Rightarrow> options \<Rightarrow> 'd state \<Rightarrow> 'd state" where
  "started r opts s =
     s\<lparr>dev := configure r opts (dev s), buff := replicate (nsamps opts) 0,
       trace := trace s @ [Ev_create_tx_thread (tx_wave_ampl opts)]\<rparr>"

definition has_cal_antennas :: "'d radio \<Rightarrow> 'd state \<Rightarrow> bool" where
  "has_cal_antennas r s \<longleftrightarrow>
     ''CAL'' \<in> set (get_rx_antennas r (dev s)) \<and> ''CAL'' \<in> set (get_tx_antennas r (dev s))"

definition sweep_start :: "'d radio \<Rightarrow> options \<Rightarrow> 'd state \<Rightarrow> real" where
  "sweep_start r opts s =
     double_add (fst (get_rx_freq_range r (configure r opts (dev s)))) 50000000"

definition sweep_stop :: "'d radio \<Rightarrow> options \<Rightarrow> 'd state \<Rightarrow> real" where
  "sweep_stop r opts s =
     double_add (snd (get_rx_freq_range r (configure r opts (dev s)))) (- 50000000)"

text \<open>The upper end of the frequency range that the configured device reports.\<close>

definition range_end :: "'d radio \<Rightarrow> options \<Rightarrow> 'd state \<Rightarrow> real" where
  "range_end r opts s = snd (get_rx_freq_range r (configure r opts (dev s)))"

definition exit_value :: "((error + int) \<times> 'd state) option \<Rightarrow> (error + int) option" where
  "exit_value y = map_option fst y"

definition final_events :: "((error + int) \<times> 'd state) option \<Rightarrow> event list option" where
  "final_events y = map_option (\<lambda>(res, s). trace s) y"

record sim_tx =
  polls_left :: nat
  sent :: "(nat \<times> bool) list"

text \<open>A transmit streamer that is interrupted after \<open>polls_left\<close> polls and records the
  length and the end-of-burst flag of every packet sent.\<close>

definition sim_tx_streamer :: "sim_tx tx_streamer" where
  "sim_tx_streamer =
    \<lparr>get_max_num_samps = (\<lambda>t. 2),
     send = (\<lambda>buf n md t. t\<lparr>sent := sent t @ [(n, end_of_burst md)]\<rparr>),
     interruption_requested = (\<lambda>t. (polls_left t = 0, t\<lparr>polls_left := polls_left t - 1\<rparr>))\<rparr>"

text \<open>The points \<open>lo\<close>, \<open>lo + step\<close>, \<open>\<dots>\<close> that are at most \<open>bound\<close>, as a loop of the
  search walks them, and the phase and amplitude of a measurement.\<close>

definition grid :: "real \<Rightarrow> real \<Rightarrow> real \<Rightarrow> real list" where
  "grid lo bound step =
     map (\<lambda>i. lo + real i * step) [0..<nat (\<lfloor>(bound - lo) / step\<rfloor> + 1)]"

definition point_of :: "measurement \<Rightarrow> real \<times> real" where
  "point_of m = (fst m, fst (snd m))"

text \<open>The wait of lines 80 to 86 as the device sees it. Every pass of the loop polls the two
  lock sensors and, if one of them is unlocked, reads the clock. \<open>poll_dev r k d\<close> is the
  device after \<open>k\<close> readings of the clock from \<open>d\<close> on, and \<open>poll_time r k d\<close> is the
  value of the next reading. The wait times out at its reading \<open>k\<close> (counted from \<open>0\<close>) if
  an LO is unlocked at each of the polls \<open>0, \<dots>, k\<close>, the readings before \<open>k\<close> are at most
  100 ms after the start, and the reading \<open>k\<close> is later than that. It ends at its poll \<open>k\<close>
  if that poll is the first to find both LOs locked, all readings before it being at most
  100 ms after the start; the time of the poll \<open>k\<close> itself is not looked at.\<close>

definition lo_locked :: "'d radio \<Rightarrow> 'd \<Rightarrow> bool" where
  "lo_locked r d \<longleftrightarrow> tx_lo_locked r d \<and> rx_lo_locked r d"

primrec poll_dev :: "'d radio \<Rightarrow> nat \<Rightarrow> 'd \<Rightarrow> 'd" where
  "poll_dev r 0 d = d"
| "poll_dev r (Suc k) d = poll_dev r k (snd (get_system_time r d))"

definition poll_time :: "'d radio \<Rightarrow> nat \<Rightarrow> 'd \<Rightarrow> int" where
  "poll_time r k d = fst (get_system_time r (poll_dev r k d))"

definition times_out_at :: "'d radio \<Rightarrow> int \<Rightarrow> 'd \<Rightarrow> nat \<Rightarrow> bool" where
  "times_out_at r start d k \<longleftrightarrow>
     list_all (\<lambda>i. \<not> lo_locked r (poll_dev r i d)) [0..<Suc k]
     \<and> list_all (\<lambda>i. poll_time r i d \<le> start + 100000) [0..<k]
     \<and> start + 100000 < poll_time r k d"

definition locks_at :: "'d radio \<Rightarrow> int \<Rightarrow> 'd \<Rightarrow> nat \<Rightarrow> bool" where
  "locks_at r start d k \<longleftrightarrow>
     list_all (\<lambda>i. \<not> lo_locked r (poll_dev r i d) \<and> poll_time r i d \<le> start + 100000) [0..<k]
     \<and> lo_locked r (poll_dev r k d)"

text \<open>Lines 70 to 79: the device when \<^verbatim>\<open>tune_rx_and_tx\<close> has set the two frequencies and
  slept, the start of its wait, and the device when the wait begins.\<close>

definition tuned_dev :: "'d radio \<Rightarrow> real \<Rightarrow> real \<Rightarrow> 'd \<Rightarrow> 'd" where
  "tuned_dev r f offs d =
     (let d1 = set_rx_freq r f d;
          d2 = set_tx_freq r (get_rx_freq r d1 - offs) d1
      in sleep_ms r 50 d2)"

definition wait_start :: "'d radio \<Rightarrow> real \<Rightarrow> real \<Rightarrow> 'd \<Rightarrow> int" where
  "wait_start r f offs d = fst (get_system_time r (tuned_dev r f offs d))"

definition wait_dev :: "'d radio \<Rightarrow> real \<Rightarrow> real \<Rightarrow> 'd \<Rightarrow> 'd" where
  "wait_dev r f offs d = snd (get_system_time r (tuned_dev r f offs d))"

text \<open>A simulated device whose LOs are unlocked before the time \<open>t\<close> of its clock and locked
  from then on.\<close>

definition late_radio :: "int \<Rightarrow> real \<times> real \<Rightarrow> sim_dev radio" where
  "late_radio t rng =
     (sim_radio False 0 0 rng)\<lparr>tx_lo_locked := (\<lambda>d. t \<le> sim_time d),
                                rx_lo_locked := (\<lambda>d. t \<le> sim_time d)\<rparr>"




section \<open>Properties\<close>

subsection \<open>capture\_samples\<close>

lemma capture_samples_cases:
  assumes "recv r (length (buff s)) (issue_stream_cmd r (length (buff s)) (dev s))
             = ((samps, code), d2)"
  shows "fst (capture_samples r s) =
           (if code \<noteq> ERROR_CODE_NONE then Inl (Unexpected_error_code code)
            else if length samps < length (buff s) then Inl Short_read
            else Inr ())"
    and "buff (snd (capture_samples r s))
           = take (length (buff s)) samps @ drop (length samps) (buff s)"
    and "length (buff (snd (capture_samples r s))) = length (buff s)"
  using assms by (auto simp: capture_samples_def Let_def min_def)

text \<open>
  Claim C8. Let the device deliver the samples \<open>samps\<close> with the error code \<open>code\<close> when
  \<open>capture_samples\<close> asks for as many samples as the buffer holds. Then \<open>capture_samples\<close>
  raises an error if and only if the code is not zero or fewer samples than requested were
  delivered; and when the code is zero and the requested count is received, it returns normally
  and the buffer holds exactly the samples received.
\<close>

theorem capture_samples_raises_iff:
  assumes "recv r (length (buff s)) (issue_stream_cmd r (length (buff s)) (dev s))
             = ((samps, code), d2)"
  shows "(isl (fst (capture_samples r s)) \<longleftrightarrow> code \<noteq> 0 \<or> length samps < length (buff s))
       \<and> (code = 0 \<and> length (take (length (buff s)) samps) = length (buff s) \<longrightarrow>
            capture_samples r s
              = (Inr (), s\<lparr>dev := d2, buff := take (length (buff s)) samps\<rparr>))"
  using assms by (auto simp: capture_samples_def Let_def ERROR_CODE_NONE_def min_def)

theorem capture_samples_raises_iff_witness:
  "\<not> isl (fst (capture_samples (sim_radio True 0 0 (100000000, 200000000)) (sim_state 4)))
   \<and> capture_samples (sim_radio True 0 0 (100000000, 200000000)) (sim_state 4)
       = (Inr (), (sim_state 4)\<lparr>dev := sim_dev0, buff := [1, 1, 1, 1]\<rparr>)
   \<and> isl (fst (capture_samples (sim_radio True 1 0 (100000000, 200000000)) (sim_state 4)))
   \<and> isl (fst (capture_samples (sim_radio True 0 8 (100000000, 200000000)) (sim_state 4)))"
  using capture_samples_raises_iff
          [of "sim_radio True 0 0 (100000000, 200000000)" "sim_state 4" "[1, 1, 1, 1]" 0 sim_dev0]
        capture_samples_raises_iff
          [of "sim_radio True 1 0 (100000000, 200000000)" "sim_state 4" "[1, 1, 1]" 0 sim_dev0]
        capture_samples_raises_iff
          [of "sim_radio True 0 8 (100000000, 200000000)" "sim_state 4" "[1, 1, 1, 1]" 8 sim_dev0]
  by (simp add: sim_radio_def sim_state_def numeral_eq_Suc)

subsection \<open>The loops of the search\<close>

lemma measurements_append [simp]: "measurements (xs @ ys) = measurements xs @ measurements ys"
  by (induction xs rule: measurements.induct) auto

lemma tuned_freqs_append [simp]: "tuned_freqs (xs @ ys) = tuned_freqs xs @ tuned_freqs ys"
  by (induction xs rule: tuned_freqs.induct) auto

lemma best_after_append [simp]: "best_after b (xs @ ys) = best_after (best_after b xs) ys"
  by (induction xs arbitrary: b) auto

lemma tuned_freqs_search: "list_all (search_event r c) es \<Longrightarrow> tuned_freqs es = []"
  by (induction es) (auto simp: search_event_def)

lemma capture_samples_trace: "trace (snd (capture_samples r s)) = trace s"
  by (simp add: capture_samples_def Let_def split: prod.splits)

lemma update_best_best_of:
  "best_of (update_best st p a x v) = best_after (best_of st) [(p, a, x, v)]"
  by (simp add: update_best_def best_of_def suppression_of_def)

lemma update_best_window: "window_of (update_best st p a x v) = window_of st"
  by (simp add: update_best_def window_of_def)

lemma search_point_Inl:
  "search_point r c p a st s = (Inl e, s') \<Longrightarrow> trace s' = trace s"
  using capture_samples_trace [of r "s\<lparr>dev := set_rx_iq_balance r (rcis (a + 1) (p * tau c)) (dev s)\<rparr>"]
  by (auto simp: search_point_def Let_def split: prod.splits sum.splits)

lemma search_point_Inr:
  assumes "search_point r c p a st s = (Inr st', s')"
  shows "\<exists>s2. trace s' = trace s @ [Ev_suppression p a (rcis (a + 1) (p * tau c))
                                          (measured_suppression r c s2)]
            \<and> st' = update_best st p a (rcis (a + 1) (p * tau c)) (measured_suppression r c s2)"
  using assms
    capture_samples_trace [of r "s\<lparr>dev := set_rx_iq_balance r (rcis (a + 1) (p * tau c)) (dev s)\<rparr>"]
  by (auto simp: search_point_def Let_def split: prod.splits sum.splits)

lemma search_post_refl: "search_post r c st s (Inr st, s)"
  by (simp add: search_post_def)

lemma search_post_Inl: "trace s' = trace s \<Longrightarrow> search_post r c st s (Inl e, s')"
  by (simp add: search_post_def)

lemma search_post_trans:
  assumes "search_post r c st s (Inr st1, s1)" and "search_post r c st1 s1 y"
  shows "search_post r c st s y"
proof -
  from assms(1) obtain e1 where e1: "trace s1 = trace s @ e1" "list_all (search_event r c) e1"
    "best_of st1 = best_after (best_of st) (measurements e1)" "window_of st1 = window_of st"
    by (auto simp: search_post_def)
  from assms(2) obtain e2 where e2: "trace (snd y) = trace s1 @ e2" "list_all (search_event r c) e2"
    "\<forall>st'. fst y = Inr st' \<longrightarrow> best_of st' = best_after (best_of st1) (measurements e2)
            \<and> window_of st' = window_of st1"
    by (auto simp: search_post_def)
  show ?thesis
    unfolding search_post_def
    by (rule exI [of _ "e1 @ e2"]) (use e1 e2 in auto)
qed

lemma search_point_post: "search_post r c st s (search_point r c p a st s)"
proof (cases "search_point r c p a st s")
  case (Pair res s')
  show ?thesis
  proof (cases res)
    case (Inl e)
    with Pair search_point_Inl show ?thesis by (metis search_post_Inl)
  next
    case (Inr st')
    with Pair search_point_Inr [of r c p a st s st' s'] show ?thesis
      by (auto simp: search_post_def update_best_best_of update_best_window search_event_def)
  qed
qed

lemma ampl_corr_loop_post:
  assumes "ampl_corr_loop r c p a st s = Some y"
  shows "search_post r c st s y"
  using assms
proof (induction rule: ampl_corr_loop.raw_induct [rotated 1, consumes 1])
  case (1 loop r c p a st s y)
  show ?case
  proof (cases "a \<le> ampl_corr_stop st + ampl_corr_step st / 2")
    case False
    with 1(2) show ?thesis by (auto simp: search_post_refl)
  next
    case True
    obtain res s1 where sp: "search_point r c p a st s = (res, s1)" by force
    have post1: "search_post r c st s (res, s1)" using search_point_post [of r c st s p a] sp by simp
    show ?thesis
    proof (cases res)
      case (Inl e)
      with 1(2) True sp have "y = (Inl e, s1)" by simp
      with post1 Inl show ?thesis by simp
    next
      case (Inr st1)
      with 1(2) True sp have "loop r c p (a + ampl_corr_step st1) st1 s1 = Some y" by simp
      then have "search_post r c st1 s1 y" by (rule 1(1))
      with post1 Inr show ?thesis by (metis search_post_trans)
    qed
  qed
qed

lemma phase_corr_loop_post:
  assumes "phase_corr_loop r c p st s = Some y"
  shows "search_post r c st s y"
  using assms
proof (induction rule: phase_corr_loop.raw_induct [rotated 1, consumes 1])
  case (1 loop r c p st s y)
  show ?case
  proof (cases "p \<le> phase_corr_stop st + phase_corr_step st / 2")
    case False
    with 1(2) show ?thesis by (auto simp: search_post_refl)
  next
    case True
    with 1(2) obtain res s1 where al: "ampl_corr_loop r c p (ampl_corr_start st) st s = Some (res, s1)"
      by (auto split: option.splits)
    have post1: "search_post r c st s (res, s1)" using ampl_corr_loop_post [OF al] .
    show ?thesis
    proof (cases res)
      case (Inl e)
      with 1(2) True al have "y = (Inl e, s1)" by simp
      with post1 Inl show ?thesis by simp
    next
      case (Inr st1)
      with 1(2) True al have "loop r c (p + phase_corr_step st1) st1 s1 = Some y" by simp
      then have "search_post r c st1 s1 y" by (rule 1(1))
      with post1 Inr show ?thesis by (metis search_post_trans)
    qed
  qed
qed

lemma best_of_with_steps: "best_of (with_steps c st) = best_of st"
  by (simp add: best_of_def with_steps_def)

lemma search_iter_Inl:
  assumes "search_iter r c st s = Some (Inl e, s')"
  shows "\<exists>evs. trace s' = trace s @ evs \<and> list_all (search_event r c) evs"
proof -
  from assms have "phase_corr_loop r c (phase_corr_start st) (with_steps c st) s = Some (Inl e, s')"
    by (auto simp: search_iter_def with_steps_def Let_def split: option.splits prod.splits sum.splits)
  from phase_corr_loop_post [OF this] show ?thesis by (auto simp: search_post_def)
qed

lemma search_iter_Inr:
  assumes "search_iter r c st s = Some (Inr st', s')"
  shows "\<exists>evs. trace s' = trace s @ evs \<and> list_all (search_event r c) evs
           \<and> best_of st' = best_after (best_of st) (measurements evs)
           \<and> phase_corr_step st' = (phase_corr_stop st - phase_corr_start st) / real (num_search_steps c - 1)
           \<and> ampl_corr_step st' = (ampl_corr_stop st - ampl_corr_start st) / real (num_search_steps c - 1)
           \<and> phase_corr_start st' = best_phase_corr st' - phase_corr_step st'
           \<and> phase_corr_stop st' = best_phase_corr st' + phase_corr_step st'
           \<and> ampl_corr_start st' = best_ampl_corr st' - ampl_corr_step st'
           \<and> ampl_corr_stop st' = best_ampl_corr st' + ampl_corr_step st'"
proof -
  from assms obtain st2 where
    pl: "phase_corr_loop r c (phase_corr_start st) (with_steps c st) s = Some (Inr st2, s')"
    and st': "st' = st2\<lparr>phase_corr_start := best_phase_corr st2 - phase_corr_step st2,
                          phase_corr_stop := best_phase_corr st2 + phase_corr_step st2,
                          ampl_corr_start := best_ampl_corr st2 - ampl_corr_step st2,
                          ampl_corr_stop := best_ampl_corr st2 + ampl_corr_step st2\<rparr>"
    by (auto simp: search_iter_def with_steps_def Let_def split: option.splits prod.splits sum.splits)
  from phase_corr_loop_post [OF pl] obtain evs where
    evs: "trace s' = trace s @ evs" "list_all (search_event r c) evs"
      "best_of st2 = best_after (best_of (with_steps c st)) (measurements evs)"
      "window_of st2 = window_of (with_steps c st)"
    by (auto simp: search_post_def)
  have b: "best_of st' = best_of st2" by (simp add: st' best_of_def)
  have w: "phase_corr_step st2 = (phase_corr_stop st - phase_corr_start st) / real (num_search_steps c - 1)"
     "ampl_corr_step st2 = (ampl_corr_stop st - ampl_corr_start st) / real (num_search_steps c - 1)"
    using evs(4) by (simp_all add: window_of_def with_steps_def)
  show ?thesis
    apply (rule exI [of _ evs])
    using evs(1,2,3) b w by (simp add: best_of_with_steps) (simp add: st')
qed

lemma search_iters_post:
  assumes "search_iters r c k st s = Some (res, s')"
  shows "\<exists>evs. trace s' = trace s @ evs \<and> list_all (search_event r c) evs
           \<and> (\<forall>st'. res = Inr st' \<longrightarrow> best_of st' = best_after (best_of st) (measurements evs))"
  using assms
proof (induction k arbitrary: res s')
  case 0
  then show ?case by auto
next
  case (Suc k)
  from Suc.prems obtain res1 s1 where k: "search_iters r c k st s = Some (res1, s1)"
    by (auto split: option.splits)
  from Suc.IH [OF k] obtain e1 where e1: "trace s1 = trace s @ e1" "list_all (search_event r c) e1"
    "\<forall>st'. res1 = Inr st' \<longrightarrow> best_of st' = best_after (best_of st) (measurements e1)"
    by auto
  show ?case
  proof (cases res1)
    case (Inl e)
    with Suc.prems k have "res = Inl e" "s' = s1" by auto
    with e1 show ?thesis by auto
  next
    case (Inr st1)
    with Suc.prems k have it: "search_iter r c st1 s1 = Some (res, s')" by auto
    show ?thesis
    proof (cases res)
      case (Inl e)
      from search_iter_Inl [OF it [unfolded Inl]] e1 Inl show ?thesis by auto
    next
      case (Inr st')
      from search_iter_Inr [OF it [unfolded Inr]] obtain e2 where
        "trace s' = trace s1 @ e2" "list_all (search_event r c) e2"
        "best_of st' = best_after (best_of st1) (measurements e2)" by auto
      with e1 \<open>res1 = Inr st1\<close> Inr show ?thesis
        by (intro exI [of _ "e1 @ e2"]) auto
    qed
  qed
qed

subsection \<open>The search returns when no capture fails\<close>

lemma search_point_returns:
  assumes "capture_ok r"
  shows "\<exists>st' s'. search_point r c p a st s = (Inr st', s')"
proof -
  let ?s1 = "s\<lparr>dev := set_rx_iq_balance r (rcis (a + 1) (p * tau c)) (dev s)\<rparr>"
  from assms have "fst (capture_samples r ?s1) = Inr ()" by (simp add: capture_ok_def)
  then obtain s2 where "capture_samples r ?s1 = (Inr (), s2)" by (cases "capture_samples r ?s1") auto
  then show ?thesis by (simp add: search_point_def Let_def)
qed

lemma ampl_corr_loop_returns_aux:
  assumes "capture_ok r" and "0 < ampl_corr_step st"
    and "ampl_corr_stop st + ampl_corr_step st / 2 - a < real k * ampl_corr_step st"
  shows "\<exists>st' s'. ampl_corr_loop r c p a st s = Some (Inr st', s')"
  using assms(2,3)
proof (induction k arbitrary: a st s)
  case 0
  then have "\<not> a \<le> ampl_corr_stop st + ampl_corr_step st / 2" by simp
  then show ?case by (subst ampl_corr_loop.simps) simp
next
  case (Suc k)
  show ?case
  proof (cases "a \<le> ampl_corr_stop st + ampl_corr_step st / 2")
    case False
    then show ?thesis by (subst ampl_corr_loop.simps) simp
  next
    case True
    from search_point_returns [OF assms(1)] obtain st1 s1 where
      sp: "search_point r c p a st s = (Inr st1, s1)" by blast
    from search_point_post [of r c st s p a] sp have "window_of st1 = window_of st"
      by (auto simp: search_post_def)
    then have w: "ampl_corr_step st1 = ampl_corr_step st" "ampl_corr_stop st1 = ampl_corr_stop st"
      by (simp_all add: window_of_def)
    have "ampl_corr_stop st1 + ampl_corr_step st1 / 2 - (a + ampl_corr_step st1)
            < real k * ampl_corr_step st1"
      using Suc.prems(2) by (simp add: w algebra_simps)
    with Suc.IH [of st1 "a + ampl_corr_step st1" s1] Suc.prems(1) w obtain st' s' where
      "ampl_corr_loop r c p (a + ampl_corr_step st1) st1 s1 = Some (Inr st', s')" by auto
    with True sp show ?thesis by (subst ampl_corr_loop.simps) simp
  qed
qed

lemma ex_steps: "0 < (d::real) \<Longrightarrow> \<exists>k::nat. x < real k * d"
  using reals_Archimedean3 [of d] by auto

lemma ampl_corr_loop_returns:
  assumes "capture_ok r" and "0 < ampl_corr_step st"
  shows "\<exists>st' s'. ampl_corr_loop r c p a st s = Some (Inr st', s')"
proof -
  from ex_steps [OF assms(2)] obtain k where
    "ampl_corr_stop st + ampl_corr_step st / 2 - a < real k * ampl_corr_step st" by blast
  from ampl_corr_loop_returns_aux [OF assms this] show ?thesis .
qed

lemma phase_corr_loop_returns_aux:
  assumes "capture_ok r" and "0 < ampl_corr_step st" and "0 < phase_corr_step st"
    and "phase_corr_stop st + phase_corr_step st / 2 - p < real k * phase_corr_step st"
  shows "\<exists>st' s'. phase_corr_loop r c p st s = Some (Inr st', s')"
  using assms(2,3,4)
proof (induction k arbitrary: p st s)
  case 0
  then have "\<not> p \<le> phase_corr_stop st + phase_corr_step st / 2" by simp
  then show ?case by (subst phase_corr_loop.simps) simp
next
  case (Suc k)
  show ?case
  proof (cases "p \<le> phase_corr_stop st + phase_corr_step st / 2")
    case False
    then show ?thesis by (subst phase_corr_loop.simps) simp
  next
    case True
    from ampl_corr_loop_returns [OF assms(1) Suc.prems(1)] obtain st1 s1 where
      al: "ampl_corr_loop r c p (ampl_corr_start st) st s = Some (Inr st1, s1)" by blast
    from ampl_corr_loop_post [OF al] have "window_of st1 = window_of st"
      by (auto simp: search_post_def)
    then have w: "ampl_corr_step st1 = ampl_corr_step st" "phase_corr_step st1 = phase_corr_step st"
      "phase_corr_stop st1 = phase_corr_stop st"
      by (simp_all add: window_of_def)
    have "phase_corr_stop st1 + phase_corr_step st1 / 2 - (p + phase_corr_step st1)
            < real k * phase_corr_step st1"
      using Suc.prems(3) by (simp add: w algebra_simps)
    with Suc.IH [of st1 "p + phase_corr_step st1" s1] Suc.prems(1,2) w obtain st' s' where
      "phase_corr_loop r c (p + phase_corr_step st1) st1 s1 = Some (Inr st', s')" by auto
    with True al show ?thesis by (subst phase_corr_loop.simps) simp
  qed
qed

lemma phase_corr_loop_returns:
  assumes "capture_ok r" and "0 < ampl_corr_step st" and "0 < phase_corr_step st"
  shows "\<exists>st' s'. phase_corr_loop r c p st s = Some (Inr st', s')"
proof -
  from ex_steps [OF assms(3)] obtain k where
    "phase_corr_stop st + phase_corr_step st / 2 - p < real k * phase_corr_step st" by blast
  from phase_corr_loop_returns_aux [OF assms this] show ?thesis .
qed

lemma search_iter_returns:
  assumes "capture_ok r" and "2 \<le> num_search_steps c" and "proper_window st"
  shows "\<exists>st' s'. search_iter r c st s = Some (Inr st', s') \<and> proper_window st'"
proof -
  have n: "0 < real (num_search_steps c - 1)" using assms(2) by simp
  have "0 < ampl_corr_step (with_steps c st)" "0 < phase_corr_step (with_steps c st)"
    using assms(3) n by (simp_all add: with_steps_def proper_window_def)
  from phase_corr_loop_returns [OF assms(1) this] obtain st2 s' where
    pl: "phase_corr_loop r c (phase_corr_start st) (with_steps c st) s = Some (Inr st2, s')"
    by blast
  then obtain st' where it: "search_iter r c st s = Some (Inr st', s')"
    by (simp add: search_iter_def with_steps_def Let_def)
  from search_iter_Inr [OF it] assms(3) n have "proper_window st'"
    by (auto simp: proper_window_def)
  with it show ?thesis by blast
qed

lemma search_iters_returns:
  assumes "capture_ok r" and "2 \<le> num_search_steps c" and "proper_window st"
  shows "\<exists>st' s'. search_iters r c k st s = Some (Inr st', s') \<and> proper_window st'"
proof (induction k)
  case 0
  with assms(3) show ?case by simp
next
  case (Suc k)
  then obtain st1 s1 where k: "search_iters r c k st s = Some (Inr st1, s1)" "proper_window st1"
    by blast
  from search_iter_returns [OF assms(1,2) k(2)] k(1) show ?case by simp
qed

lemma proper_window_init: "proper_window init_search"
  by (simp add: proper_window_def init_search_def)

subsection \<open>The best candidate among the measurements\<close>

lemma new_events_eq: "trace s' = trace s @ evs \<Longrightarrow> new_events s s' = evs"
  by (simp add: new_events_def)

lemma best_after_cases:
  "(best_after b ms = b \<and> (\<forall>m\<in>set ms. suppression_of m \<le> suppression_of b))
   \<or> (suppression_of b < suppression_of (best_after b ms) \<and> best_after b ms \<in> set ms)"
proof (induction ms arbitrary: b)
  case Nil
  then show ?case by simp
next
  case (Cons m ms)
  show ?case
  proof (cases "suppression_of m > suppression_of b")
    case True
    with Cons.IH [of m] show ?thesis by auto
  next
    case False
    with Cons.IH [of b] show ?thesis by auto
  qed
qed

lemma best_after_ge_init: "suppression_of b \<le> suppression_of (best_after b ms)"
  using best_after_cases [of b ms] by auto

lemma best_after_ge:
  assumes "m \<in> set ms"
  shows "suppression_of m \<le> suppression_of (best_after b ms)"
  using assms
proof (induction ms arbitrary: b)
  case Nil
  then show ?case by simp
next
  case (Cons x xs)
  show ?case
  proof (cases "m = x")
    case True
    have "suppression_of x \<le> suppression_of (if suppression_of x > suppression_of b then x else b)"
      by simp
    also have "\<dots> \<le> suppression_of (best_after (if suppression_of x > suppression_of b then x else b) xs)"
      by (rule best_after_ge_init)
    finally show ?thesis using True by simp
  next
    case False
    with Cons.prems have "m \<in> set xs" by simp
    from Cons.IH [OF this] show ?thesis by simp
  qed
qed

lemma best_after_unchanged:
  "\<forall>m\<in>set ms. suppression_of m \<le> suppression_of b \<Longrightarrow> best_after b ms = b"
  using best_after_cases [of b ms] by fastforce

lemma best_after_first:
  assumes "suppression_of b < suppression_of (best_after b ms)"
  shows "\<exists>pre post. ms = pre @ best_after b ms # post
           \<and> (\<forall>m\<in>set pre. suppression_of m < suppression_of (best_after b ms))
           \<and> (\<forall>m\<in>set post. suppression_of m \<le> suppression_of (best_after b ms))"
  using assms
proof (induction ms arbitrary: b)
  case Nil
  then show ?case by simp
next
  case (Cons x xs)
  define b' where "b' = (if suppression_of x > suppression_of b then x else b)"
  define q where "q = best_after b' xs"
  have eq: "best_after b (x # xs) = q" by (simp add: b'_def q_def)
  have bb': "suppression_of b \<le> suppression_of b'" "suppression_of x \<le> suppression_of b'"
    by (simp_all add: b'_def)
  from best_after_cases [of b' xs]
  have "\<exists>pre post. x # xs = pre @ q # post
           \<and> (\<forall>m\<in>set pre. suppression_of m < suppression_of q)
           \<and> (\<forall>m\<in>set post. suppression_of m \<le> suppression_of q)"
  proof
    assume same: "best_after b' xs = b' \<and> (\<forall>m\<in>set xs. suppression_of m \<le> suppression_of b')"
    then have qb: "q = b'" by (simp add: q_def)
    from Cons.prems eq qb have "suppression_of b < suppression_of b'" by simp
    then have "b' = x" by (simp add: b'_def split: if_splits)
    with qb same have "x # xs = [] @ q # xs" "\<forall>m\<in>set xs. suppression_of m \<le> suppression_of q"
      by simp_all
    then show ?thesis by (intro exI [of _ "[]"] exI [of _ xs]) simp
  next
    assume "suppression_of b' < suppression_of (best_after b' xs) \<and> best_after b' xs \<in> set xs"
    then have lt: "suppression_of b' < suppression_of q" by (simp add: q_def)
    then have "suppression_of b' < suppression_of (best_after b' xs)" by (simp add: q_def)
    from Cons.IH [OF this] obtain pre post where
      pp: "xs = pre @ q # post"
        "\<forall>m\<in>set pre. suppression_of m < suppression_of q"
        "\<forall>m\<in>set post. suppression_of m \<le> suppression_of q" unfolding q_def by blast
    have "suppression_of x < suppression_of q" using lt bb'(2) by simp
    with pp(2) have "\<forall>m\<in>set (x # pre). suppression_of m < suppression_of q" by simp
    moreover have "x # xs = (x # pre) @ q # post" using pp(1) by simp
    ultimately show ?thesis using pp(3) by blast
  qed
  then show ?case unfolding eq .
qed

subsection \<open>The window from round to round\<close>

lemma search_iter_width:
  assumes "search_iter r c st s = Some (Inr st', s')"
  shows "phase_corr_stop st' - phase_corr_start st'
           = (phase_corr_stop st - phase_corr_start st) * (2 / real (num_search_steps c - 1))"
    and "ampl_corr_stop st' - ampl_corr_start st'
           = (ampl_corr_stop st - ampl_corr_start st) * (2 / real (num_search_steps c - 1))"
proof -
  from search_iter_Inr [OF assms] obtain evs where
    f: "phase_corr_step st' = (phase_corr_stop st - phase_corr_start st) / real (num_search_steps c - 1)"
       "ampl_corr_step st' = (ampl_corr_stop st - ampl_corr_start st) / real (num_search_steps c - 1)"
       "phase_corr_start st' = best_phase_corr st' - phase_corr_step st'"
       "phase_corr_stop st' = best_phase_corr st' + phase_corr_step st'"
       "ampl_corr_start st' = best_ampl_corr st' - ampl_corr_step st'"
       "ampl_corr_stop st' = best_ampl_corr st' + ampl_corr_step st'" by blast
  show "phase_corr_stop st' - phase_corr_start st'
           = (phase_corr_stop st - phase_corr_start st) * (2 / real (num_search_steps c - 1))"
    by (simp only: f(3,4)) (simp add: f(1))
  show "ampl_corr_stop st' - ampl_corr_start st'
           = (ampl_corr_stop st - ampl_corr_start st) * (2 / real (num_search_steps c - 1))"
    by (simp only: f(5,6)) (simp add: f(2))
qed

lemma search_iters_Suc_Inr:
  assumes "search_iters r c (Suc k) st s = Some (Inr st', s')"
  shows "\<exists>stp sp. search_iters r c k st s = Some (Inr stp, sp)
           \<and> search_iter r c stp sp = Some (Inr st', s')"
proof (cases "search_iters r c k st s")
  case None
  with assms show ?thesis by simp
next
  case (Some y)
  obtain res sp where y: "y = (res, sp)" by (cases y)
  show ?thesis
  proof (cases res)
    case (Inl e)
    with assms Some y show ?thesis by simp
  next
    case (Inr stp)
    with assms Some y show ?thesis by simp
  qed
qed

lemma search_iters_width:
  assumes "search_iters r c k st s = Some (Inr st', s')"
  shows "phase_corr_stop st' - phase_corr_start st'
           = (phase_corr_stop st - phase_corr_start st) * (2 / real (num_search_steps c - 1)) ^ k
       \<and> ampl_corr_stop st' - ampl_corr_start st'
           = (ampl_corr_stop st - ampl_corr_start st) * (2 / real (num_search_steps c - 1)) ^ k"
  using assms
proof (induction k arbitrary: st' s')
  case 0
  then show ?case by simp
next
  case (Suc k)
  from search_iters_Suc_Inr [OF Suc.prems] obtain stp sp where
    k: "search_iters r c k st s = Some (Inr stp, sp)"
    and it: "search_iter r c stp sp = Some (Inr st', s')" by blast
  from Suc.IH [OF k] search_iter_width [OF it] show ?case by simp
qed

lemma search_iters_recentred:
  assumes "search_iters r c (Suc k) st s = Some (Inr st', s')"
  shows "\<exists>stp sp. search_iters r c k st s = Some (Inr stp, sp)
       \<and> phase_corr_step st' = (phase_corr_stop stp - phase_corr_start stp) / real (num_search_steps c - 1)
       \<and> ampl_corr_step st' = (ampl_corr_stop stp - ampl_corr_start stp) / real (num_search_steps c - 1)
       \<and> phase_corr_start st' = best_phase_corr st' - phase_corr_step st'
       \<and> phase_corr_stop st' = best_phase_corr st' + phase_corr_step st'
       \<and> ampl_corr_start st' = best_ampl_corr st' - ampl_corr_step st'
       \<and> ampl_corr_stop st' = best_ampl_corr st' + ampl_corr_step st'
       \<and> (phase_corr_start st' + phase_corr_stop st') / 2 = best_phase_corr st'
       \<and> (ampl_corr_start st' + ampl_corr_stop st') / 2 = best_ampl_corr st'"
proof -
  from search_iters_Suc_Inr [OF assms] obtain stp sp where
    k: "search_iters r c k st s = Some (Inr stp, sp)"
    and it: "search_iter r c stp sp = Some (Inr st', s')" by blast
  from search_iter_Inr [OF it] obtain evs where
    f: "phase_corr_step st' = (phase_corr_stop stp - phase_corr_start stp) / real (num_search_steps c - 1)"
       "ampl_corr_step st' = (ampl_corr_stop stp - ampl_corr_start stp) / real (num_search_steps c - 1)"
       "phase_corr_start st' = best_phase_corr st' - phase_corr_step st'"
       "phase_corr_stop st' = best_phase_corr st' + phase_corr_step st'"
       "ampl_corr_start st' = best_ampl_corr st' - ampl_corr_step st'"
       "ampl_corr_stop st' = best_ampl_corr st' + ampl_corr_step st'" by blast
  have g: "(phase_corr_start st' + phase_corr_stop st') / 2 = best_phase_corr st'"
     "(ampl_corr_start st' + ampl_corr_stop st') / 2 = best_ampl_corr st'"
    by (simp_all only: f(3-6)) simp_all
  show ?thesis using k f g by blast
qed

lemma capture_ok_sim: "capture_ok (sim_radio locked 0 0 rng)"
  by (simp add: capture_ok_def capture_samples_def sim_radio_def ERROR_CODE_NONE_def Let_def)

lemma measured_suppression_sim:
  "measured_suppression (sim_radio locked missing code rng) (sim_utils n k v) s = v"
  by (simp add: measured_suppression_def sim_radio_def sim_utils_def Let_def)

lemma search_events_values:
  assumes "list_all (search_event r c) evs" and "\<forall>s. measured_suppression r c s = v"
  shows "\<forall>m\<in>set (measurements evs). suppression_of m = v"
  using assms(1)
proof (induction evs)
  case Nil
  then show ?case by simp
next
  case (Cons e evs)
  then obtain p a s where "e = Ev_suppression p a (rcis (a + 1) (p * tau c)) (measured_suppression r c s)"
    by (auto simp: search_event_def)
  with Cons assms(2) show ?case by (simp add: suppression_of_def)
qed

text \<open>
  Claim C2, as amended. Each round multiplies the width of the window on each axis by
  \<open>2 / (num_search_steps - 1)\<close>: the step is the width divided by \<open>num_search_steps - 1\<close>, and
  the new window, best \<open>\<plusminus>\<close> step, is two steps wide. After \<open>k\<close> rounds the width is the
  initial width times \<open>(2 / (num_search_steps - 1)) ^ k\<close>.
\<close>

theorem window_width_after_rounds:
  assumes "search_iters r c k st s = Some (Inr st', s')" and "2 \<le> num_search_steps c"
  shows "phase_width st' = phase_width st * (2 / real (num_search_steps c - 1)) ^ k
       \<and> ampl_width st' = ampl_width st * (2 / real (num_search_steps c - 1)) ^ k"
  using search_iters_width [OF assms(1)] by (simp add: phase_width_def ampl_width_def)

lemma sim_search_width:
  "map_option phase_width (final_search_state
      (search_iters (sim_radio True 0 0 rng) (sim_utils 5 7 v) k init_search s))
     = Some (3/5 * (1/2) ^ k)"
proof -
  let ?r = "sim_radio True 0 0 rng" and ?c = "sim_utils 5 7 v"
  have "2 \<le> num_search_steps ?c" by (simp add: sim_utils_def)
  from search_iters_returns [OF capture_ok_sim this proper_window_init, where k = k and s = s]
  obtain st' s' where run: "search_iters ?r ?c k init_search s = Some (Inr st', s')"
    by blast
  from search_iters_width [OF run] have "phase_width st' = 3/5 * (1/2) ^ k"
    by (simp add: phase_width_def init_search_def sim_utils_def)
  with run show ?thesis by (simp add: final_search_state_def)
qed

theorem window_width_after_rounds_witness:
  "\<exists>st' s'. search_iters (sim_radio True 0 0 (100000000, 300000000)) (sim_utils 5 7 35) 2
              init_search (sim_state 10000) = Some (Inr st', s')
     \<and> phase_width st' = 3/20 \<and> ampl_width st' = 3/20"
proof -
  let ?r = "sim_radio True 0 0 (100000000, 300000000)" and ?c = "sim_utils 5 7 35"
  have n: "2 \<le> num_search_steps ?c" by (simp add: sim_utils_def)
  from search_iters_returns [OF capture_ok_sim n proper_window_init, where k = 2 and s = "sim_state 10000"]
  obtain st' s' where run: "search_iters ?r ?c 2 init_search (sim_state 10000) = Some (Inr st', s')"
    by blast
  from window_width_after_rounds [OF run n] have "phase_width st' = 3/20" "ampl_width st' = 3/20"
    by (simp_all add: phase_width_def ampl_width_def init_search_def sim_utils_def power2_eq_square)
  with run show ?thesis by blast
qed

theorem window_width_counterexample:
  "map_option phase_width (final_search_state
      (search_iters (sim_radio True 0 0 (100000000, 300000000)) (sim_utils 5 7 35) 1
         init_search (sim_state 10000))) = Some (3/10)
   \<and> phase_width init_search / real (num_search_steps (sim_utils 5 7 35) - 1) ^ 1 = 3/20
   \<and> map_option phase_width (final_search_state
      (search_iters (sim_radio True 0 0 (100000000, 300000000)) (sim_utils 5 7 35) 1
         init_search (sim_state 10000)))
       \<noteq> Some (phase_width init_search / real (num_search_steps (sim_utils 5 7 35) - 1) ^ 1)"
proof -
  have a: "map_option phase_width (final_search_state
      (search_iters (sim_radio True 0 0 (100000000, 300000000)) (sim_utils 5 7 35) 1
         init_search (sim_state 10000))) = Some (3/10)"
    using sim_search_width [of "(100000000, 300000000)" 35 1 "sim_state 10000"] by simp
  have b: "phase_width init_search / real (num_search_steps (sim_utils 5 7 35) - 1) ^ 1 = 3/20"
    by (simp add: phase_width_def init_search_def sim_utils_def)
  show ?thesis unfolding a b by simp
qed

subsection \<open>Tuning leaves one step in the history\<close>

lemma wait_lo_locked_trace:
  assumes "wait_lo_locked r start s = Some y"
  shows "trace (snd y) = trace s"
  using assms
proof (induction rule: wait_lo_locked.raw_induct [rotated 1, consumes 1])
  case (1 loop r start s y)
  show ?case
  proof (cases "\<not> tx_lo_locked r (dev s) \<or> \<not> rx_lo_locked r (dev s)")
    case False
    with 1(2) show ?thesis by auto
  next
    case True
    obtain now d' where t: "get_system_time r (dev s) = (now, d')" by force
    show ?thesis
    proof (cases "now > start + 100000")
      case True
      with 1(2) \<open>\<not> tx_lo_locked r (dev s) \<or> \<not> rx_lo_locked r (dev s)\<close> t show ?thesis by auto
    next
      case False
      with 1(2) True t have "loop r start (s\<lparr>dev := d'\<rparr>) = Some y" by auto
      from 1(1) [OF this] show ?thesis by simp
    qed
  qed
qed

lemma tune_rx_and_tx_trace:
  assumes "tune_rx_and_tx r f offs s = Some (res, s')"
  shows "trace s' = trace s @ [Ev_set_rx_freq f]"
proof -
  obtain start d4 where t: "get_system_time r (sleep_ms r 50 (set_tx_freq r
      (get_rx_freq r (set_rx_freq r f (dev s)) - offs) (set_rx_freq r f (dev s)))) = (start, d4)"
    by force
  let ?s0 = "s\<lparr>dev := d4, trace := trace s @ [Ev_set_rx_freq f]\<rparr>"
  from assms t obtain y where w: "wait_lo_locked r start ?s0 = Some y" and y: "snd y = s'"
    by (auto simp: tune_rx_and_tx_def Let_def split: option.splits sum.splits prod.splits)
  from wait_lo_locked_trace [OF w] y show ?thesis by simp
qed

subsection \<open>The rounds of a search, and a search that never improves\<close>

lemma search_iters_prefix:
  assumes "search_iters r c k st s = Some (Inr st', s')" and "j \<le> k"
  shows "\<exists>stj sj evs. search_iters r c j st s = Some (Inr stj, sj) \<and> trace s' = trace sj @ evs"
  using assms
proof (induction k arbitrary: st' s')
  case 0
  then show ?case by simp
next
  case (Suc k)
  show ?case
  proof (cases "j = Suc k")
    case True
    with Suc.prems(1) show ?thesis by auto
  next
    case False
    with Suc.prems(2) have jk: "j \<le> k" by simp
    from search_iters_Suc_Inr [OF Suc.prems(1)] obtain stp sp where
      k: "search_iters r c k st s = Some (Inr stp, sp)"
      and it: "search_iter r c stp sp = Some (Inr st', s')" by blast
    from Suc.IH [OF k jk] obtain stj sj e1 where
      j: "search_iters r c j st s = Some (Inr stj, sj)" "trace sp = trace sj @ e1" by blast
    from search_iter_Inr [OF it] obtain e2 where "trace s' = trace sp @ e2" by blast
    with j show ?thesis by auto
  qed
qed

lemma best_of_init: "best_of init_search = (0, 0, 0, 0)"
  by (simp add: best_of_def init_search_def)

lemma search_iters_measured:
  assumes "search_iters r c k st s = Some (Inr st', s')"
  shows "best_of st' = best_after (best_of st) (measurements (new_events s s'))"
proof -
  from search_iters_post [OF assms] obtain evs where
    "trace s' = trace s @ evs" "best_of st' = best_after (best_of st) (measurements evs)" by auto
  then show ?thesis by (simp add: new_events_eq)
qed

lemma search_iters_prefix_measurements:
  assumes "search_iters r c k st s = Some (Inr st', s')" and "j \<le> k"
  shows "\<exists>stj sj. search_iters r c j st s = Some (Inr stj, sj)
           \<and> set (measurements (new_events s sj)) \<subseteq> set (measurements (new_events s s'))"
proof -
  from search_iters_prefix [OF assms] obtain stj sj e2 where
    j: "search_iters r c j st s = Some (Inr stj, sj)" and t: "trace s' = trace sj @ e2" by blast
  from search_iters_post [OF j] obtain e1 where e1: "trace sj = trace s @ e1" by blast
  with t have "new_events s sj = e1" "new_events s s' = e1 @ e2" by (simp_all add: new_events_eq)
  with j show ?thesis by auto
qed

lemma search_all_nonpositive:
  assumes "search_iters r c k init_search s = Some (Inr st', s')"
    and "\<forall>m\<in>set (measurements (new_events s s')). suppression_of m \<le> 0"
    and "j \<le> k"
  shows "\<exists>stj sj. search_iters r c j init_search s = Some (Inr stj, sj)
       \<and> best_correction stj = 0 \<and> best_suppression stj = 0
       \<and> best_phase_corr stj = 0 \<and> best_ampl_corr stj = 0
       \<and> (0 < j \<longrightarrow> phase_corr_start stj = - phase_corr_step stj
                  \<and> phase_corr_stop stj = phase_corr_step stj
                  \<and> ampl_corr_start stj = - ampl_corr_step stj
                  \<and> ampl_corr_stop stj = ampl_corr_step stj)"
proof -
  from search_iters_prefix_measurements [OF assms(1,3)] obtain stj sj where
    j: "search_iters r c j init_search s = Some (Inr stj, sj)"
    and sub: "set (measurements (new_events s sj)) \<subseteq> set (measurements (new_events s s'))"
    by blast
  from sub assms(2) have "\<forall>m\<in>set (measurements (new_events s sj)).
      suppression_of m \<le> suppression_of (best_of init_search)"
    by (auto simp: best_of_init suppression_of_def)
  from best_after_unchanged [OF this] search_iters_measured [OF j]
  have "best_of stj = (0, 0, 0, 0)" by (simp add: best_of_init)
  then have b: "best_correction stj = 0" "best_suppression stj = 0"
    "best_phase_corr stj = 0" "best_ampl_corr stj = 0"
    by (simp_all add: best_of_def)
  have w: "phase_corr_start stj = - phase_corr_step stj \<and> phase_corr_stop stj = phase_corr_step stj
         \<and> ampl_corr_start stj = - ampl_corr_step stj \<and> ampl_corr_stop stj = ampl_corr_step stj"
    if "0 < j"
  proof -
    from that obtain j' where "j = Suc j'" by (cases j) auto
    with j search_iters_recentred [of r c j' init_search s stj sj] b show ?thesis by auto
  qed
  from j b w show ?thesis by blast
qed

subsection \<open>The first grid point, and ties\<close>

lemma ampl_corr_loop_first:
  assumes "ampl_corr_loop r c p a st s = Some (Inr st', s')"
    and "a \<le> ampl_corr_stop st + ampl_corr_step st / 2"
  shows "\<exists>v rest. measurements (new_events s s') = (p, a, rcis (a + 1) (p * tau c), v) # rest"
proof -
  obtain res s1 where sp: "search_point r c p a st s = (res, s1)" by force
  show ?thesis
  proof (cases res)
    case (Inl e)
    with assms sp show ?thesis by (subst (asm) ampl_corr_loop.simps) simp
  next
    case (Inr st1)
    with assms sp have rec: "ampl_corr_loop r c p (a + ampl_corr_step st1) st1 s1 = Some (Inr st', s')"
      by (subst (asm) ampl_corr_loop.simps) simp
    from search_point_Inr [OF sp [unfolded Inr]] obtain s2 where
      t1: "trace s1 = trace s @ [Ev_suppression p a (rcis (a + 1) (p * tau c))
                                   (measured_suppression r c s2)]" by blast
    from ampl_corr_loop_post [OF rec] obtain evs where "trace s' = trace s1 @ evs"
      by (auto simp: search_post_def)
    with t1 have "new_events s s' = Ev_suppression p a (rcis (a + 1) (p * tau c))
                                   (measured_suppression r c s2) # evs"
      by (simp add: new_events_eq)
    then show ?thesis by simp
  qed
qed

lemma phase_corr_loop_first:
  assumes "phase_corr_loop r c p st s = Some (Inr st', s')"
    and "p \<le> phase_corr_stop st + phase_corr_step st / 2"
    and "ampl_corr_start st \<le> ampl_corr_stop st + ampl_corr_step st / 2"
  shows "\<exists>v rest. measurements (new_events s s')
           = (p, ampl_corr_start st, rcis (ampl_corr_start st + 1) (p * tau c), v) # rest"
proof -
  from assms(1,2) obtain res s1 where
    al: "ampl_corr_loop r c p (ampl_corr_start st) st s = Some (res, s1)"
    by (subst (asm) phase_corr_loop.simps) (auto split: option.splits)
  show ?thesis
  proof (cases res)
    case (Inl e)
    with assms(1,2) al show ?thesis by (subst (asm) phase_corr_loop.simps) simp
  next
    case (Inr st1)
    with assms(1,2) al have
      rec: "phase_corr_loop r c (p + phase_corr_step st1) st1 s1 = Some (Inr st', s')"
      by (subst (asm) phase_corr_loop.simps) simp
    from ampl_corr_loop_first [OF al [unfolded Inr] assms(3)] obtain v rest where
      m1: "measurements (new_events s s1)
             = (p, ampl_corr_start st, rcis (ampl_corr_start st + 1) (p * tau c), v) # rest"
      by blast
    from ampl_corr_loop_post [OF al] obtain e1 where e1: "trace s1 = trace s @ e1"
      by (auto simp: search_post_def)
    from phase_corr_loop_post [OF rec] obtain e2 where e2: "trace s' = trace s1 @ e2"
      by (auto simp: search_post_def)
    from e1 e2 have "new_events s s1 = e1" "new_events s s' = e1 @ e2"
      by (simp_all add: new_events_eq)
    with m1 show ?thesis by simp
  qed
qed

lemma search_iter_first:
  assumes "search_iter r c st s = Some (Inr st', s')"
    and "2 \<le> num_search_steps c" and "proper_window st"
  shows "\<exists>v rest. measurements (new_events s s')
           = (phase_corr_start st, ampl_corr_start st,
              rcis (ampl_corr_start st + 1) (phase_corr_start st * tau c), v) # rest"
proof -
  from assms(1) obtain st2 where
    pl: "phase_corr_loop r c (phase_corr_start st) (with_steps c st) s = Some (Inr st2, s')"
    by (auto simp: search_iter_def with_steps_def Let_def split: option.splits prod.splits sum.splits)
  have n: "0 < real (num_search_steps c - 1)" using assms(2) by simp
  have "0 < phase_corr_step (with_steps c st)" "0 < ampl_corr_step (with_steps c st)"
    using assms(3) n by (simp_all add: with_steps_def proper_window_def)
  with assms(3) have
    "phase_corr_start st \<le> phase_corr_stop (with_steps c st) + phase_corr_step (with_steps c st) / 2"
    "ampl_corr_start (with_steps c st)
       \<le> ampl_corr_stop (with_steps c st) + ampl_corr_step (with_steps c st) / 2"
    by (simp_all add: with_steps_def proper_window_def)
  from phase_corr_loop_first [OF pl this] show ?thesis by (simp add: with_steps_def)
qed

lemma search_iters_first:
  assumes "search_iters r c k st s = Some (Inr st', s')" and "0 < k"
    and "2 \<le> num_search_steps c" and "proper_window st"
  shows "\<exists>v rest. measurements (new_events s s')
           = (phase_corr_start st, ampl_corr_start st,
              rcis (ampl_corr_start st + 1) (phase_corr_start st * tau c), v) # rest"
proof -
  from assms(2) have "Suc 0 \<le> k" by simp
  from search_iters_prefix [OF assms(1) this] obtain st1 s1 e2 where
    it: "search_iter r c st s = Some (Inr st1, s1)" and t: "trace s' = trace s1 @ e2"
    by auto
  from search_iter_first [OF it assms(3,4)] obtain v rest where
    m: "measurements (new_events s s1)
         = (phase_corr_start st, ampl_corr_start st,
            rcis (ampl_corr_start st + 1) (phase_corr_start st * tau c), v) # rest" by blast
  from search_iter_Inr [OF it] obtain e1 where "trace s1 = trace s @ e1" by blast
  with t have "new_events s s1 = e1" "new_events s s' = e1 @ e2" by (simp_all add: new_events_eq)
  with m show ?thesis by simp
qed

lemma search_first_of_ties:
  assumes "search_iters r c k init_search s = Some (Inr st', s')"
    and "0 < best_suppression st'"
  shows "\<exists>pre post. measurements (new_events s s') = pre @ best_of st' # post
           \<and> (\<forall>m\<in>set pre. suppression_of m < best_suppression st')
           \<and> (\<forall>m\<in>set post. suppression_of m \<le> best_suppression st')"
proof -
  have b: "best_of st' = best_after (best_of init_search) (measurements (new_events s s'))"
    by (rule search_iters_measured [OF assms(1)])
  have s: "suppression_of (best_of st') = best_suppression st'"
    by (simp add: suppression_of_def best_of_def)
  from assms(2) have "suppression_of (best_of init_search)
      < suppression_of (best_after (best_of init_search) (measurements (new_events s s')))"
    unfolding b [symmetric] s by (simp add: best_of_init suppression_of_def)
  from best_after_first [OF this] show ?thesis unfolding b [symmetric] s .
qed

lemma search_constant_measure:
  assumes "search_iters r c k init_search s = Some (Inr st', s')"
    and "0 < k" and "2 \<le> num_search_steps c" and "0 < v"
    and "\<forall>m\<in>set (measurements (new_events s s')). suppression_of m = v"
  shows "best_of st' = (- (3/10), - (3/10), rcis (7/10) (- (3/10) * tau c), v)"
proof -
  let ?ms = "measurements (new_events s s')"
  from search_iters_first [OF assms(1,2,3) proper_window_init] obtain w rest where
    ms: "?ms = (- (3/10), - (3/10), rcis (7/10) (- (3/10) * tau c), w) # rest"
    by (auto simp: init_search_def)
  with assms(5) have w: "w = v" by (simp add: suppression_of_def)
  have b: "best_of st' = best_after (best_of init_search) ?ms"
    by (rule search_iters_measured [OF assms(1)])
  have "suppression_of (hd ?ms) \<le> suppression_of (best_of st')"
    unfolding b by (rule best_after_ge) (simp add: ms)
  with ms w assms(4) have pos: "0 < best_suppression st'"
    by (simp add: suppression_of_def best_of_def)
  from search_first_of_ties [OF assms(1) pos] obtain pre post where
    pp: "?ms = pre @ best_of st' # post"
    "\<forall>m\<in>set pre. suppression_of m < best_suppression st'" by blast
  from pp(1) have "best_of st' \<in> set ?ms" by simp
  with assms(5) have bv: "best_suppression st' = v" by (auto simp: suppression_of_def best_of_def)
  have "pre = []"
  proof (cases pre)
    case Nil
    then show ?thesis .
  next
    case (Cons x xs)
    with pp(1) have "x \<in> set ?ms" by simp
    with assms(5) have "suppression_of x = v" by simp
    moreover from Cons pp(2) have "suppression_of x < best_suppression st'" by simp
    ultimately show ?thesis using bv by simp
  qed
  with pp(1) ms w show ?thesis by simp
qed

subsection \<open>The amplitudes measured\<close>






lemma search_events_measured:
  assumes "list_all (search_event r c) evs"
  shows "\<forall>m\<in>set (measurements evs). \<exists>s. suppression_of m = measured_suppression r c s"
  using assms
proof (induction evs)
  case Nil
  then show ?case by simp
next
  case (Cons e evs)
  then obtain p a s where "e = Ev_suppression p a (rcis (a + 1) (p * tau c)) (measured_suppression r c s)"
    by (auto simp: search_event_def)
  with Cons show ?case by (auto simp: suppression_of_def)
qed

lemma search_iters_measured_values:
  assumes "search_iters r c k st s = Some (res, s')"
  shows "\<forall>m\<in>set (measurements (new_events s s')). \<exists>s2. suppression_of m = measured_suppression r c s2"
proof -
  from search_iters_post [OF assms] obtain evs where
    "trace s' = trace s @ evs" "list_all (search_event r c) evs" by blast
  with search_events_measured [of r c evs] show ?thesis by (simp add: new_events_eq)
qed

subsection \<open>The scan order of a round\<close>

lemma grid_done: "0 < step \<Longrightarrow> \<not> x \<le> bound \<Longrightarrow> grid x bound step = []"
proof -
  assume "0 < step" "\<not> x \<le> bound"
  then have "(bound - x) / step < 0" by (simp add: divide_less_0_iff)
  then have "\<lfloor>(bound - x) / step\<rfloor> < 0" by (simp only: floor_less_zero)
  then have "nat (\<lfloor>(bound - x) / step\<rfloor> + 1) = 0" by arith
  then show ?thesis unfolding grid_def by simp
qed

lemma grid_step:
  assumes "0 < step" and "x \<le> bound"
  shows "grid x bound step = x # grid (x + step) bound step"
proof -
  let ?y = "(bound - x) / step"
  define z where "z = \<lfloor>?y\<rfloor>"
  have "0 \<le> ?y" using assms by simp
  then have c: "0 \<le> z" unfolding z_def by (simp only: zero_le_floor)
  have "(bound - (x + step)) / step = ?y - 1" using assms(1) by (simp add: field_simps)
  then have "\<lfloor>(bound - (x + step)) / step\<rfloor> = z - 1" unfolding z_def by simp
  moreover from c have "nat (z + 1) = Suc (nat (z - 1 + 1))" by arith
  ultimately have n: "nat (\<lfloor>?y\<rfloor> + 1) = Suc (nat (\<lfloor>(bound - (x + step)) / step\<rfloor> + 1))"
    unfolding z_def by simp
  have "map (\<lambda>i. x + real i * step) [0..<Suc n]
          = x # map (\<lambda>i. x + step + real i * step) [0..<n]" for n
    by (simp add: upt_conv_Cons map_Suc_upt [symmetric] algebra_simps del: upt_Suc)
  then show ?thesis unfolding grid_def n by simp
qed

lemma grid_window:
  assumes "2 \<le> n" and "lo < hi"
  shows "grid lo (hi + (hi - lo) / real (n - 1) / 2) ((hi - lo) / real (n - 1))
           = map (\<lambda>i. lo + real i * ((hi - lo) / real (n - 1))) [0..<n]"
proof -
  define w where "w = hi - lo"
  define k where "k = real (n - 1)"
  have k: "0 < k" using assms(1) by (simp add: k_def)
  have w: "0 < w" using assms(2) by (simp add: w_def)
  have "(hi + w / k / 2 - lo) / (w / k) = (w + w / k / 2) / (w / k)"
    by (simp add: w_def)
  also have "\<dots> = k + 1 / 2" using k w by (simp add: field_simps)
  finally have "\<lfloor>(hi + w / k / 2 - lo) / (w / k)\<rfloor> = \<lfloor>k + 1 / 2\<rfloor>" by simp
  also have "\<dots> = int (n - 1)" unfolding k_def by (simp add: floor_eq_iff)
  finally have "nat (\<lfloor>(hi + w / k / 2 - lo) / (w / k)\<rfloor> + 1) = n"
    using assms(1) by simp
  then show ?thesis unfolding grid_def w_def k_def by simp
qed

lemma ampl_corr_loop_scan:
  assumes "ampl_corr_loop r c p a st s = Some y" and "0 < ampl_corr_step st"
  shows "\<exists>evs. trace (snd y) = trace s @ evs
           \<and> (\<forall>st'. fst y = Inr st' \<longrightarrow>
                 map point_of (measurements evs)
                   = map (Pair p) (grid a (ampl_corr_stop st + ampl_corr_step st / 2)
                                    (ampl_corr_step st)))"
  using assms
proof (induction rule: ampl_corr_loop.raw_induct [rotated 1, consumes 1])
  case (1 loop r c p a st s y)
  show ?case
  proof (cases "a \<le> ampl_corr_stop st + ampl_corr_step st / 2")
    case False
    with 1(2) have "y = (Inr st, s)" by simp
    with False 1(3) show ?thesis by (simp add: grid_done)
  next
    case True
    obtain res s1 where sp: "search_point r c p a st s = (res, s1)" by force
    show ?thesis
    proof (cases res)
      case (Inl e)
      with 1(2) True sp have "y = (Inl e, s1)" by simp
      with search_point_Inl [OF sp [unfolded Inl]] show ?thesis by simp
    next
      case (Inr st1)
      with 1(2) True sp have rec: "loop r c p (a + ampl_corr_step st1) st1 s1 = Some y" by simp
      from search_point_post [of r c st s p a] sp Inr have "window_of st1 = window_of st"
        by (auto simp: search_post_def)
      then have w: "ampl_corr_step st1 = ampl_corr_step st" "ampl_corr_stop st1 = ampl_corr_stop st"
        by (simp_all add: window_of_def)
      with 1(3) have "0 < ampl_corr_step st1" by simp
      from 1(1) [OF rec this] obtain e2 where
        e2: "trace (snd y) = trace s1 @ e2"
            "\<forall>st'. fst y = Inr st' \<longrightarrow> map point_of (measurements e2)
                   = map (Pair p) (grid (a + ampl_corr_step st)
                        (ampl_corr_stop st + ampl_corr_step st / 2) (ampl_corr_step st))"
        unfolding w by blast
      from search_point_Inr [OF sp [unfolded Inr]] obtain s2 where
        t1: "trace s1 = trace s @ [Ev_suppression p a (rcis (a + 1) (p * tau c))
                                     (measured_suppression r c s2)]" by blast
      let ?e = "Ev_suppression p a (rcis (a + 1) (p * tau c)) (measured_suppression r c s2)"
      have "trace (snd y) = trace s @ ?e # e2" using e2(1) t1 by simp
      moreover have "\<forall>st'. fst y = Inr st' \<longrightarrow> map point_of (measurements (?e # e2))
                   = map (Pair p) (grid a (ampl_corr_stop st + ampl_corr_step st / 2)
                                    (ampl_corr_step st))"
        using e2(2) by (simp add: grid_step [OF 1(3) True] point_of_def)
      ultimately show ?thesis by blast
    qed
  qed
qed

lemma phase_corr_loop_scan:
  assumes "phase_corr_loop r c p st s = Some y"
    and "0 < ampl_corr_step st" and "0 < phase_corr_step st"
  shows "\<exists>evs. trace (snd y) = trace s @ evs
           \<and> (\<forall>st'. fst y = Inr st' \<longrightarrow>
                 map point_of (measurements evs)
                   = concat (map (\<lambda>p. map (Pair p)
                        (grid (ampl_corr_start st) (ampl_corr_stop st + ampl_corr_step st / 2)
                           (ampl_corr_step st)))
                      (grid p (phase_corr_stop st + phase_corr_step st / 2) (phase_corr_step st))))"
  using assms
proof (induction rule: phase_corr_loop.raw_induct [rotated 1, consumes 1])
  case (1 loop r c p st s y)
  show ?case
  proof (cases "p \<le> phase_corr_stop st + phase_corr_step st / 2")
    case False
    with 1(2) have "y = (Inr st, s)" by simp
    with False 1(4) show ?thesis by (simp add: grid_done)
  next
    case True
    with 1(2) obtain res s1 where
      al: "ampl_corr_loop r c p (ampl_corr_start st) st s = Some (res, s1)"
      by (auto split: option.splits)
    from ampl_corr_loop_scan [OF al 1(3)] obtain e1 where
      e1: "trace s1 = trace s @ e1"
          "\<forall>st'. res = Inr st' \<longrightarrow> map point_of (measurements e1)
                   = map (Pair p) (grid (ampl_corr_start st)
                        (ampl_corr_stop st + ampl_corr_step st / 2) (ampl_corr_step st))"
      by auto
    show ?thesis
    proof (cases res)
      case (Inl e)
      with 1(2) True al have "y = (Inl e, s1)" by simp
      with e1(1) show ?thesis by simp
    next
      case (Inr st1)
      with 1(2) True al have rec: "loop r c (p + phase_corr_step st1) st1 s1 = Some y" by simp
      from ampl_corr_loop_post [OF al] Inr have "window_of st1 = window_of st"
        by (auto simp: search_post_def)
      then have w: "ampl_corr_step st1 = ampl_corr_step st" "ampl_corr_start st1 = ampl_corr_start st"
        "ampl_corr_stop st1 = ampl_corr_stop st" "phase_corr_step st1 = phase_corr_step st"
        "phase_corr_stop st1 = phase_corr_stop st"
        by (simp_all add: window_of_def)
      with 1(3,4) have "0 < ampl_corr_step st1" "0 < phase_corr_step st1" by simp_all
      from 1(1) [OF rec this] obtain e2 where
        e2: "trace (snd y) = trace s1 @ e2"
            "\<forall>st'. fst y = Inr st' \<longrightarrow> map point_of (measurements e2)
                   = concat (map (\<lambda>p. map (Pair p)
                        (grid (ampl_corr_start st) (ampl_corr_stop st + ampl_corr_step st / 2)
                           (ampl_corr_step st)))
                      (grid (p + phase_corr_step st)
                         (phase_corr_stop st + phase_corr_step st / 2) (phase_corr_step st)))"
        unfolding w by blast
      have "trace (snd y) = trace s @ e1 @ e2" using e1(1) e2(1) by simp
      moreover have "\<forall>st'. fst y = Inr st' \<longrightarrow> map point_of (measurements (e1 @ e2))
                   = concat (map (\<lambda>p. map (Pair p)
                        (grid (ampl_corr_start st) (ampl_corr_stop st + ampl_corr_step st / 2)
                           (ampl_corr_step st)))
                      (grid p (phase_corr_stop st + phase_corr_step st / 2) (phase_corr_step st)))"
        using e1(2) e2(2) Inr by (simp add: grid_step [OF 1(4) True])
      ultimately show ?thesis by blast
    qed
  qed
qed

lemma search_iter_scan:
  assumes "search_iter r c st s = Some (Inr st', s')"
    and "2 \<le> num_search_steps c" and "proper_window st"
  shows "map point_of (measurements (new_events s s'))
           = concat (map (\<lambda>i. map (\<lambda>j. (phase_corr_start st + real i * phase_corr_step st',
                                           ampl_corr_start st + real j * ampl_corr_step st'))
                                  [0..<num_search_steps c])
                      [0..<num_search_steps c])"
proof -
  let ?w = "with_steps c st"
  from assms(1) obtain st2 where
    pl: "phase_corr_loop r c (phase_corr_start st) ?w s = Some (Inr st2, s')"
    by (auto simp: search_iter_def with_steps_def Let_def split: option.splits prod.splits sum.splits)
  have n: "0 < real (num_search_steps c - 1)" using assms(2) by simp
  have pos: "0 < ampl_corr_step ?w" "0 < phase_corr_step ?w"
    using assms(3) n by (simp_all add: with_steps_def proper_window_def)
  from search_iter_Inr [OF assms(1)] have
    st: "phase_corr_step st' = (phase_corr_stop st - phase_corr_start st) / real (num_search_steps c - 1)"
        "ampl_corr_step st' = (ampl_corr_stop st - ampl_corr_start st) / real (num_search_steps c - 1)"
    by auto
  have f: "phase_corr_stop ?w = phase_corr_stop st" "phase_corr_step ?w = phase_corr_step st'"
    "ampl_corr_start ?w = ampl_corr_start st" "ampl_corr_stop ?w = ampl_corr_stop st"
    "ampl_corr_step ?w = ampl_corr_step st'"
    by (simp_all add: with_steps_def st)
  from assms(3) have lt: "phase_corr_start st < phase_corr_stop st" "ampl_corr_start st < ampl_corr_stop st"
    by (simp_all add: proper_window_def)
  from phase_corr_loop_scan [OF pl pos] have
    "map point_of (measurements (new_events s s'))
       = concat (map (\<lambda>p. map (Pair p)
            (grid (ampl_corr_start st) (ampl_corr_stop st + ampl_corr_step st' / 2)
               (ampl_corr_step st')))
          (grid (phase_corr_start st) (phase_corr_stop st + phase_corr_step st' / 2)
             (phase_corr_step st')))"
    unfolding f by (auto simp: new_events_eq)
  also have "grid (ampl_corr_start st) (ampl_corr_stop st + ampl_corr_step st' / 2)
               (ampl_corr_step st')
      = map (\<lambda>j. ampl_corr_start st + real j * ampl_corr_step st') [0..<num_search_steps c]"
    unfolding st by (rule grid_window [OF assms(2) lt(2)])
  also have "grid (phase_corr_start st) (phase_corr_stop st + phase_corr_step st' / 2)
             (phase_corr_step st')
      = map (\<lambda>i. phase_corr_start st + real i * phase_corr_step st') [0..<num_search_steps c]"
    unfolding st by (rule grid_window [OF assms(2) lt(1)])
  finally show ?thesis by (simp add: comp_def)
qed

text \<open>
  Claim C3, as amended. The search replaces its best candidate only by a strictly greater
  suppression. So when the suppression it returns is greater than \<open>0\<close>, the value the search
  starts from, the point returned is the first one in scan order that reached that suppression:
  every point measured before it gave strictly less and none measured after it gave more. In
  particular, for a measurement that returns the same value \<open>v > 0\<close> at every grid point, the
  best candidate returned is the first grid point scanned, phase \<open>- 0.3\<close> and amplitude
  \<open>- 0.3\<close>, with its correction and \<open>v\<close>; and on a device whose captures never fail and whose
  suppression is \<open>v\<close> in every state, the search returns that candidate. The scan order of a
  round is the order of its two loops: the points \<open>(start + i * step, start + j * step)\<close> of
  the window it starts from, phase outermost and amplitude innermost, both from low to high.
\<close>

theorem ties_keep_first_point:
  "(search_iters r c k init_search s = Some (Inr st', s') \<and> 0 < best_suppression st' \<longrightarrow>
      (\<exists>pre post. measurements (new_events s s') = pre @ best_of st' # post
         \<and> (\<forall>m\<in>set pre. suppression_of m < best_suppression st')
         \<and> (\<forall>m\<in>set post. suppression_of m \<le> best_suppression st')))
   \<and> (search_iters r c k init_search s = Some (Inr st', s') \<and> 0 < k \<and> 2 \<le> num_search_steps c
        \<and> 0 < v \<and> (\<forall>m\<in>set (measurements (new_events s s')). suppression_of m = v) \<longrightarrow>
      best_of st' = (- (3/10), - (3/10), rcis (7/10) (- (3/10) * tau c), v)
      \<and> (\<exists>rest. measurements (new_events s s') = best_of st' # rest))
   \<and> (capture_ok r \<and> 0 < k \<and> 2 \<le> num_search_steps c \<and> 0 < v
        \<and> (\<forall>s2. measured_suppression r c s2 = v) \<longrightarrow>
      (\<exists>st s1. search_iters r c k init_search s = Some (Inr st, s1)
         \<and> best_of st = (- (3/10), - (3/10), rcis (7/10) (- (3/10) * tau c), v)))
   \<and> (search_iter r c st0 s0 = Some (Inr st1, s1) \<and> 2 \<le> num_search_steps c
        \<and> proper_window st0 \<longrightarrow>
      map point_of (measurements (new_events s0 s1))
        = concat (map (\<lambda>i. map (\<lambda>j. (phase_corr_start st0 + real i * phase_corr_step st1,
                                         ampl_corr_start st0 + real j * ampl_corr_step st1))
                                [0..<num_search_steps c])
                    [0..<num_search_steps c]))"
proof (intro conjI impI)
  assume "search_iter r c st0 s0 = Some (Inr st1, s1) \<and> 2 \<le> num_search_steps c
        \<and> proper_window st0"
  then show "map point_of (measurements (new_events s0 s1))
        = concat (map (\<lambda>i. map (\<lambda>j. (phase_corr_start st0 + real i * phase_corr_step st1,
                                         ampl_corr_start st0 + real j * ampl_corr_step st1))
                                [0..<num_search_steps c])
                    [0..<num_search_steps c])"
    using search_iter_scan [of r c st0 s0 st1 s1] by blast
next
  assume "search_iters r c k init_search s = Some (Inr st', s') \<and> 0 < best_suppression st'"
  then show "\<exists>pre post. measurements (new_events s s') = pre @ best_of st' # post
         \<and> (\<forall>m\<in>set pre. suppression_of m < best_suppression st')
         \<and> (\<forall>m\<in>set post. suppression_of m \<le> best_suppression st')"
    using search_first_of_ties [of r c k s st' s'] by blast
next
  assume a: "search_iters r c k init_search s = Some (Inr st', s') \<and> 0 < k \<and> 2 \<le> num_search_steps c
        \<and> 0 < v \<and> (\<forall>m\<in>set (measurements (new_events s s')). suppression_of m = v)"
  then show b: "best_of st' = (- (3/10), - (3/10), rcis (7/10) (- (3/10) * tau c), v)"
    using search_constant_measure [of r c k s st' s' v] by blast
  from a search_iters_first [of r c k init_search s st' s'] proper_window_init
  obtain w rest where
    ms: "measurements (new_events s s')
           = (- (3/10), - (3/10), rcis (7/10) (- (3/10) * tau c), w) # rest"
    by (auto simp: init_search_def)
  with a have "w = v" by (simp add: suppression_of_def)
  with ms b show "\<exists>rest. measurements (new_events s s') = best_of st' # rest" by simp
next
  assume g: "capture_ok r \<and> 0 < k \<and> 2 \<le> num_search_steps c \<and> 0 < v
        \<and> (\<forall>s2. measured_suppression r c s2 = v)"
  with search_iters_returns [of r c init_search k s] proper_window_init obtain st s1 where
    run: "search_iters r c k init_search s = Some (Inr st, s1)" by blast
  from search_iters_measured_values [OF run] g have
    "\<forall>m\<in>set (measurements (new_events s s1)). suppression_of m = v" by fastforce
  with search_constant_measure [OF run, of v] g run
  show "\<exists>st s1. search_iters r c k init_search s = Some (Inr st, s1)
         \<and> best_of st = (- (3/10), - (3/10), rcis (7/10) (- (3/10) * tau c), v)" by blast
qed

theorem ties_keep_first_point_witness:
  "\<exists>st s1 rest. search_iters (sim_radio True 0 0 (100000000, 300000000)) (sim_utils 5 7 35) 7
              init_search (sim_state 10000) = Some (Inr st, s1)
     \<and> best_of st = (- (3/10), - (3/10), rcis (7/10) (- (3/10) * tau (sim_utils 5 7 35)), 35)
     \<and> measurements (new_events (sim_state 10000) s1) = best_of st # rest
     \<and> list_all (\<lambda>m. suppression_of m = 35) rest"
proof -
  let ?r = "sim_radio True 0 0 (100000000, 300000000)" and ?c = "sim_utils 5 7 35"
  have g: "capture_ok ?r \<and> (0::nat) < 7 \<and> 2 \<le> num_search_steps ?c \<and> (0::real) < 35
             \<and> (\<forall>s2. measured_suppression ?r ?c s2 = 35)"
    by (simp add: capture_ok_sim measured_suppression_sim) (simp add: sim_utils_def)
  with ties_keep_first_point [of ?r ?c 7 "sim_state 10000" _ _ 35]
  obtain st s1 where run: "search_iters ?r ?c 7 init_search (sim_state 10000) = Some (Inr st, s1)"
    and b: "best_of st = (- (3/10), - (3/10), rcis (7/10) (- (3/10) * tau ?c), 35)"
    by blast
  from search_iters_measured_values [OF run]
  have all: "\<forall>m\<in>set (measurements (new_events (sim_state 10000) s1)). suppression_of m = 35"
    by (auto simp: measured_suppression_sim)
  from b have pos: "0 < best_suppression st" by (simp add: best_of_def)
  from ties_keep_first_point [of ?r ?c 7 "sim_state 10000" st s1 35] run all g
  obtain rest where r: "measurements (new_events (sim_state 10000) s1) = best_of st # rest"
    by blast
  from ties_keep_first_point [of ?r ?c 7 "sim_state 10000" st s1 35] run pos
  obtain pre post where "measurements (new_events (sim_state 10000) s1) = pre @ best_of st # post"
    by blast
  from all r have "list_all (\<lambda>m. suppression_of m = 35) rest" by (simp add: list_all_iff)
  with run b r show ?thesis by blast
qed

theorem ties_keep_first_point_counterexample:
  "map_option best_of (final_search_state
      (search_iters (sim_radio True 0 0 (100000000, 300000000)) (sim_utils 5 7 0) 7
         init_search (sim_state 10000))) = Some (0, 0, 0, 0)
   \<and> correction_of (0, 0, 0, 0) \<noteq> rcis (7/10) (- (3/10) * tau (sim_utils 5 7 0))
   \<and> measured_suppression (sim_radio True 0 0 (100000000, 300000000)) (sim_utils 5 7 0)
        (sim_state 10000) = 0"
proof -
  let ?r = "sim_radio True 0 0 (100000000, 300000000)" and ?c = "sim_utils 5 7 0"
  have "2 \<le> num_search_steps ?c" by (simp add: sim_utils_def)
  from search_iters_returns [OF capture_ok_sim this proper_window_init,
      where k = 7 and s = "sim_state 10000"]
  obtain st s1 where run: "search_iters ?r ?c 7 init_search (sim_state 10000) = Some (Inr st, s1)"
    by blast
  from search_iters_measured_values [OF run]
  have "\<forall>m\<in>set (measurements (new_events (sim_state 10000) s1)). suppression_of m \<le> 0"
    by (auto simp: measured_suppression_sim)
  from search_all_nonpositive [OF run this le_refl] run have "best_of st = (0, 0, 0, 0)"
    by (auto simp: best_of_def)
  with run show ?thesis
    by (simp add: final_search_state_def correction_of_def rcis_eq_zero_iff
        measured_suppression_sim eq_commute [of 0])
qed

subsection \<open>The body of the sweep\<close>

lemma stored_results_append [simp]:
  "stored_results (xs @ ys) = stored_results xs @ stored_results ys"
  by (induction xs rule: stored_results.induct) auto

lemma sweep_events_quiet:
  assumes "list_all (sweep_event r c) evs"
  shows "stored_results evs = []" and "Ev_interrupt_all \<notin> set evs" and "Ev_join_all \<notin> set evs"
    and "Ev_create_tx_thread x \<notin> set evs"
  using assms by (induction evs) (auto simp: sweep_event_def search_event_def)

lemma search_events_sweep: "list_all (search_event r c) evs \<Longrightarrow> list_all (sweep_event r c) evs"
  by (induction evs) (auto simp: sweep_event_def)

lemma measurements_tuned [simp]: "measurements (Ev_set_rx_freq f # evs) = measurements evs"
  by simp

lemma wait_lo_locked_error:
  assumes "wait_lo_locked r start s = Some y"
  shows "fst y = Inr () \<or> fst y = Inl Lock_timeout"
  using assms
proof (induction rule: wait_lo_locked.raw_induct [rotated 1, consumes 1])
  case (1 loop r start s y)
  then show ?case by (auto split: if_splits prod.splits)
qed

lemma tune_rx_and_tx_error:
  assumes "tune_rx_and_tx r f offs s = Some (Inl e, s')"
  shows "e = Lock_timeout"
proof -
  obtain start d4 where t: "get_system_time r (sleep_ms r 50 (set_tx_freq r
      (get_rx_freq r (set_rx_freq r f (dev s)) - offs) (set_rx_freq r f (dev s)))) = (start, d4)"
    by force
  let ?s0 = "s\<lparr>dev := d4, trace := trace s @ [Ev_set_rx_freq f]\<rparr>"
  from assms t have "wait_lo_locked r start ?s0 = Some (Inl e, s')"
    by (auto simp: tune_rx_and_tx_def Let_def split: option.splits sum.splits prod.splits)
  from wait_lo_locked_error [OF this] show ?thesis by simp
qed

lemma sweep_body_cases:
  assumes "sweep_body r c opts f results s = Some (res, s')"
  shows "(\<exists>e. tune_rx_and_tx r f (tx_offset opts) s = Some (Inl e, s') \<and> res = Inl e)
       \<or> (\<exists>rx_lo s1 e. tune_rx_and_tx r f (tx_offset opts) s = Some (Inr rx_lo, s1)
             \<and> search_iters r c (num_search_iters c) init_search s1 = Some (Inl e, s')
             \<and> res = Inl e)
       \<or> (\<exists>rx_lo s1 st. tune_rx_and_tx r f (tx_offset opts) s = Some (Inr rx_lo, s1)
             \<and> search_iters r c (num_search_iters c) init_search s1 = Some (Inr st, s')
             \<and> res = Inr (keep_result rx_lo st results))"
proof (cases "tune_rx_and_tx r f (tx_offset opts) s")
  case None
  with assms show ?thesis by (simp add: sweep_body_def)
next
  case (Some y)
  obtain tr s1 where y: "y = (tr, s1)" by (cases y)
  show ?thesis
  proof (cases tr)
    case (Inl e)
    with assms Some y show ?thesis by (simp add: sweep_body_def)
  next
    case (Inr rx_lo)
    note tune = Some [unfolded y Inr]
    show ?thesis
    proof (cases "search_iters r c (num_search_iters c) init_search s1")
      case None
      with assms tune show ?thesis by (simp add: sweep_body_def)
    next
      case (Some z)
      obtain sr s2 where z: "z = (sr, s2)" by (cases z)
      show ?thesis
      proof (cases sr)
        case (Inl e)
        with assms tune Some z show ?thesis by (simp add: sweep_body_def)
      next
        case (Inr st)
        with assms tune Some z show ?thesis by (simp add: sweep_body_def)
      qed
    qed
  qed
qed

lemma sweep_body_events:
  assumes "sweep_body r c opts f results s = Some (res, s')"
  shows "\<exists>evs. trace s' = trace s @ Ev_set_rx_freq f # evs \<and> list_all (search_event r c) evs"
proof -
  from sweep_body_cases [OF assms] consider
    (tune) e where "tune_rx_and_tx r f (tx_offset opts) s = Some (Inl e, s')"
  | (search) rx_lo s1 sr where "tune_rx_and_tx r f (tx_offset opts) s = Some (Inr rx_lo, s1)"
      "search_iters r c (num_search_iters c) init_search s1 = Some (sr, s')"
    by blast
  then show ?thesis
  proof cases
    case tune
    from tune_rx_and_tx_trace [OF this] show ?thesis by simp
  next
    case search
    from tune_rx_and_tx_trace [OF search(1)] search_iters_post [OF search(2)]
    show ?thesis by auto
  qed
qed

lemma sweep_body_accepted:
  assumes "sweep_body r c opts f results s = Some (Inr results', s')" and "results' \<noteq> results"
  shows "\<exists>e. results' = results @ [e] \<and> 30 < sup_dB e
           \<and> (\<forall>m\<in>set (measurements (new_events s s')). suppression_of m \<le> sup_dB e)
           \<and> (\<exists>p a x. (p, a, x, sup_dB e) \<in> set (measurements (new_events s s'))
                 \<and> real_corr e = Re x \<and> imag_corr e = Im x)"
proof -
  from sweep_body_cases [OF assms(1)] obtain rx_lo s1 st where
    tune: "tune_rx_and_tx r f (tx_offset opts) s = Some (Inr rx_lo, s1)"
    and search: "search_iters r c (num_search_iters c) init_search s1 = Some (Inr st, s')"
    and res: "results' = keep_result rx_lo st results" by auto
  let ?e = "\<lparr>freq = rx_lo, real_corr = Re (best_correction st),
             imag_corr = Im (best_correction st), sup_dB = best_suppression st\<rparr>"
  from res assms(2) have acc: "30 < best_suppression st" and r: "results' = results @ [?e]"
    by (auto simp: keep_result_def split: if_splits)
  from tune_rx_and_tx_trace [OF tune] search_iters_post [OF search] obtain evs where
    "trace s1 = trace s @ [Ev_set_rx_freq f]" "trace s' = trace s1 @ evs" by auto
  then have "new_events s s' = Ev_set_rx_freq f # evs" "new_events s1 s' = evs"
    by (simp_all add: new_events_eq)
  then have ms: "measurements (new_events s s') = measurements (new_events s1 s')" by simp
  let ?ms = "measurements (new_events s1 s')"
  have b: "best_of st = best_after (best_of init_search) ?ms"
    by (rule search_iters_measured [OF search])
  have sb: "suppression_of (best_of st) = best_suppression st"
    by (simp add: suppression_of_def best_of_def)
  have le: "\<forall>m\<in>set ?ms. suppression_of m \<le> best_suppression st"
    using best_after_ge [of _ ?ms "best_of init_search"] unfolding b [symmetric] sb by blast
  from acc have "suppression_of (best_of init_search) < suppression_of (best_of st)"
    by (simp add: sb) (simp add: best_of_init suppression_of_def)
  with best_after_cases [of "best_of init_search" ?ms] have "best_of st \<in> set ?ms"
    unfolding b [symmetric] by auto
  then have mem: "(best_phase_corr st, best_ampl_corr st, best_correction st, best_suppression st)
      \<in> set ?ms" by (simp add: best_of_def)
  show ?thesis
    apply (rule exI [of _ ?e])
    using r acc le mem unfolding ms by auto
qed

subsection \<open>Double arithmetic\<close>

lemma two_powi_Suc: "(2::real) powi (e + 1) = 2 * 2 powi e"
  by (simp add: power_int_add_1')

lemma two_powi_pred: "(2::real) powi (e - 1) = 2 powi e / 2"
  using two_powi_Suc [of "e - 1"] by simp

lemma binary_exponent_bounds:
  "0 < x \<Longrightarrow> 2 powi (binary_exponent x) \<le> x \<and> x < 2 powi (binary_exponent x + 1)"
proof (induction x rule: binary_exponent.induct)
  case (1 x)
  show ?case
  proof (cases "2 \<le> x")
    case True
    with 1(3) have e: "binary_exponent x = binary_exponent (x / 2) + 1"
      by (subst binary_exponent.simps) simp
    from 1(1) [OF _ True] 1(3) have
      "2 powi (binary_exponent (x / 2)) \<le> x / 2 \<and> x / 2 < 2 powi (binary_exponent (x / 2) + 1)"
      by simp
    then show ?thesis unfolding e two_powi_Suc by simp
  next
    case False
    note lt2 = this
    show ?thesis
    proof (cases "x < 1")
      case True
      with 1(3) lt2 have e: "binary_exponent x = binary_exponent (x * 2) - 1"
        by (subst binary_exponent.simps) simp
      from 1(2) [OF _ lt2 True] 1(3) have
        "2 powi (binary_exponent (x * 2)) \<le> x * 2 \<and> x * 2 < 2 powi (binary_exponent (x * 2) + 1)"
        by simp
      then show ?thesis unfolding e two_powi_Suc by (simp add: two_powi_pred)
    next
      case False
      with 1(3) lt2 have "binary_exponent x = 0" by (subst binary_exponent.simps) simp
      with False lt2 show ?thesis by simp
    qed
  qed
qed

lemma binary_exponent_unique:
  assumes "0 < x" and "2 powi e \<le> x" and "x < 2 powi (e + 1)"
  shows "binary_exponent x = e"
proof -
  let ?b = "binary_exponent x"
  from binary_exponent_bounds [OF assms(1)] have b: "2 powi ?b \<le> x" "x < 2 powi (?b + 1)" by simp_all
  have "\<not> ?b + 1 \<le> e"
  proof
    assume "?b + 1 \<le> e"
    then have "(2::real) powi (?b + 1) \<le> 2 powi e" by (intro power_int_increasing) simp_all
    with b(2) assms(2) show False by linarith
  qed
  moreover have "\<not> e + 1 \<le> ?b"
  proof
    assume "e + 1 \<le> ?b"
    then have "(2::real) powi (e + 1) \<le> 2 powi ?b" by (intro power_int_increasing) simp_all
    with b(1) assms(3) show False by linarith
  qed
  ultimately show ?thesis by linarith
qed

lemma binary_exponent_mono:
  assumes "0 < x" and "x \<le> y"
  shows "binary_exponent x \<le> binary_exponent y"
proof (rule ccontr)
  assume "\<not> binary_exponent x \<le> binary_exponent y"
  then have "binary_exponent y + 1 \<le> binary_exponent x" by simp
  then have "(2::real) powi (binary_exponent y + 1) \<le> 2 powi (binary_exponent x)"
    by (intro power_int_increasing) simp_all
  moreover from binary_exponent_bounds [of x] binary_exponent_bounds [of y] assms
  have "2 powi (binary_exponent x) \<le> x" "y < 2 powi (binary_exponent y + 1)" by simp_all
  ultimately show False using assms(2) by linarith
qed

lemma round_even_of_int: "round_even (of_int z) = z"
  by (simp add: round_even_def)

lemma round_even_bounds: "\<lfloor>y\<rfloor> \<le> round_even y" "round_even y \<le> \<lfloor>y\<rfloor> + 1"
  by (simp_all add: round_even_def Let_def)

lemma round_even_mono:
  assumes "y \<le> y'"
  shows "round_even y \<le> round_even y'"
proof (cases "\<lfloor>y\<rfloor> = \<lfloor>y'\<rfloor>")
  case True
  with assms have "y - of_int \<lfloor>y\<rfloor> \<le> y' - of_int \<lfloor>y'\<rfloor>" by simp
  with True show ?thesis by (simp add: round_even_def Let_def)
next
  case False
  with assms have "\<lfloor>y\<rfloor> < \<lfloor>y'\<rfloor>" using floor_mono [OF assms] by linarith
  with round_even_bounds(2) [of y] round_even_bounds(1) [of y'] show ?thesis by linarith
qed

lemma round_even_minus: "round_even (- y) = - round_even y"
proof (cases "y = of_int \<lfloor>y\<rfloor>")
  case True
  then have "round_even y = \<lfloor>y\<rfloor>" "round_even (- y) = - \<lfloor>y\<rfloor>"
    using round_even_of_int [of "\<lfloor>y\<rfloor>"] round_even_of_int [of "- \<lfloor>y\<rfloor>"] by simp_all
  then show ?thesis by simp
next
  case False
  then have f: "\<lfloor>- y\<rfloor> = - \<lfloor>y\<rfloor> - 1"
    by (simp add: floor_eq_iff) linarith
  define d where "d = y - of_int \<lfloor>y\<rfloor>"
  have d: "- y - of_int (- \<lfloor>y\<rfloor> - 1) = 1 - d" by (simp add: d_def)
  have e: "even (- \<lfloor>y\<rfloor> - 1) \<longleftrightarrow> odd \<lfloor>y\<rfloor>" by simp
  show ?thesis
    unfolding round_even_def Let_def f d e d_def [symmetric]
    by (auto simp: not_less)
qed

lemma round_double_minus: "round_double (- x) = - round_double x"
  by (simp add: round_double_def Let_def round_even_minus)

lemma round_double_range:
  assumes "0 < x"
  shows "2 powi (binary_exponent x) \<le> round_double x"
    and "round_double x \<le> 2 powi (binary_exponent x + 1)"
proof -
  define e where "e = binary_exponent x"
  define u :: real where "u = 2 powi (e - 52)"
  have u: "0 < u" by (simp add: u_def)
  from binary_exponent_bounds [OF assms] have b: "2 powi e \<le> x" "x < 2 powi (e + 1)"
    by (simp_all add: e_def)
  have p1: "(2::real) powi e = 2 ^ 52 * u"
    using power_int_add [of "2::real" 52 "e - 52"] by (simp add: u_def)
  have "52 + 1 + (e - 52) = e + 1" by simp
  then have p2: "(2::real) powi (e + 1) = 2 ^ 53 * u"
    using power_int_add [of "2::real" 53 "e - 52"] by (simp add: u_def add.commute)
  note p = p1 p2
  have lo: "of_int (2 ^ 52) \<le> x / u" using b(1) u unfolding p by (simp add: field_simps)
  have hi: "x / u \<le> of_int (2 ^ 53)" using b(2) u unfolding p by (simp add: field_simps)
  from round_even_mono [OF lo] have l: "2 ^ 52 \<le> round_even (x / u)"
    unfolding round_even_of_int .
  from round_even_mono [OF hi] have h: "round_even (x / u) \<le> 2 ^ 53"
    unfolding round_even_of_int .
  have r: "round_double x = of_int (round_even (x / u)) * u"
    using assms by (simp add: round_double_def Let_def u_def e_def)
  from l have "(2::real) ^ 52 \<le> of_int (round_even (x / u))" by simp
  with u have "2 ^ 52 * u \<le> of_int (round_even (x / u)) * u" by simp
  then show "2 powi (binary_exponent x) \<le> round_double x" unfolding r p(1) [symmetric] e_def .
  from h have "of_int (round_even (x / u)) \<le> (2::real) ^ 53" by simp
  with u have "of_int (round_even (x / u)) * u \<le> 2 ^ 53 * u" by simp
  then show "round_double x \<le> 2 powi (binary_exponent x + 1)" unfolding r p(2) [symmetric] e_def .
qed

lemma round_double_mono_pos:
  assumes "0 < x" and "x \<le> y"
  shows "round_double x \<le> round_double y"
proof (cases "binary_exponent x = binary_exponent y")
  case True
  define u :: real where "u = 2 powi (binary_exponent y - 52)"
  have u: "0 < u" by (simp add: u_def)
  from assms u have "x / u \<le> y / u" by (simp add: divide_right_mono)
  from round_even_mono [OF this] have "(of_int (round_even (x / u)) :: real) \<le> of_int (round_even (y / u))"
    by simp
  with u have "of_int (round_even (x / u)) * u \<le> of_int (round_even (y / u)) * u" by simp
  with assms True show ?thesis by (simp add: round_double_def Let_def u_def)
next
  case False
  with binary_exponent_mono [OF assms] have "binary_exponent x + 1 \<le> binary_exponent y" by simp
  then have "(2::real) powi (binary_exponent x + 1) \<le> 2 powi (binary_exponent y)"
    by (intro power_int_increasing) simp_all
  with round_double_range(2) [OF assms(1)] round_double_range(1) [of y] assms
  show ?thesis by simp
qed

lemma round_double_nonneg: "0 \<le> x \<Longrightarrow> 0 \<le> round_double x"
proof -
  assume "0 \<le> x"
  show ?thesis
  proof (cases "x = 0")
    case True
    then show ?thesis by (simp add: round_double_def)
  next
    case False
    with \<open>0 \<le> x\<close> have "0 < x" by simp
    from round_double_range(1) [OF this] have "2 powi (binary_exponent x) \<le> round_double x" .
    moreover have "(0::real) < 2 powi (binary_exponent x)" by simp
    ultimately show ?thesis by linarith
  qed
qed

lemma round_double_mono:
  assumes "x \<le> y"
  shows "round_double x \<le> round_double y"
proof -
  consider "0 < x" | "x \<le> 0" "0 \<le> y" | "y < 0" by linarith
  then show ?thesis
  proof cases
    case 1
    from round_double_mono_pos [OF 1 assms] show ?thesis .
  next
    case 2
    from round_double_nonneg [of "- x"] 2(1) have "round_double x \<le> 0"
      by (simp add: round_double_minus)
    with round_double_nonneg [OF 2(2)] show ?thesis by simp
  next
    case 3
    with assms have "0 < - y" "- y \<le> - x" by simp_all
    from round_double_mono_pos [OF this] show ?thesis by (simp add: round_double_minus)
  qed
qed

lemma round_double_of_nat_pos:
  assumes "0 < z" and "z < 2 ^ 53"
  shows "round_double (of_int z) = of_int z"
proof -
  define x :: real where "x = of_int z"
  define e where "e = binary_exponent x"
  have x: "0 < x" "x < 2 powi 53" using assms by (simp_all add: x_def)
  from binary_exponent_bounds [OF x(1)] have "2 powi e \<le> x" by (simp add: e_def)
  with x(2) have "(2::real) powi e < 2 powi 53" by linarith
  then have "\<not> 53 \<le> e" using power_int_increasing [of 53 e "2::real"] by auto
  then have le: "e \<le> 52" by simp
  define k where "k = nat (52 - e)"
  have k: "52 - e = int k" using le by (simp add: k_def)
  have "(2::real) powi (e - 52) = inverse (2 powi (52 - e))"
    using power_int_minus [of "2::real" "52 - e"] by simp
  also have "\<dots> = inverse (2 ^ k)" unfolding k by simp
  finally have u: "(2::real) powi (e - 52) = inverse (2 ^ k)" .
  have "x / inverse (2 ^ k) = of_int (z * 2 ^ k)" by (simp add: x_def divide_inverse)
  then have "round_even (x / inverse (2 ^ k)) = z * 2 ^ k" by (simp only: round_even_of_int)
  then have "round_double x = of_int (z * 2 ^ k) * inverse (2 ^ k)"
    using x(1) by (simp add: round_double_def Let_def e_def [symmetric] u)
  also have "\<dots> = x" by (simp add: x_def)
  finally show ?thesis by (simp add: x_def)
qed

lemma round_double_of_int:
  assumes "\<bar>z\<bar> < 2 ^ 53"
  shows "round_double (of_int z) = of_int z"
proof -
  consider "0 < z" | "z = 0" | "z < 0" by linarith
  then show ?thesis
  proof cases
    case 1
    with assms show ?thesis by (intro round_double_of_nat_pos) simp_all
  next
    case 2
    then show ?thesis by (simp add: round_double_def)
  next
    case 3
    with assms have "0 < - z" "- z < 2 ^ 53" by simp_all
    from round_double_of_nat_pos [OF this] show ?thesis
      using round_double_minus [of "of_int z"] by simp
  qed
qed

lemma double_add_of_int:
  assumes "\<bar>a + b\<bar> < 2 ^ 53"
  shows "double_add (of_int a) (of_int b) = of_int (a + b)"
  using round_double_of_int [OF assms] by (simp add: double_add_def)

lemma double_add_mono: "a + b \<le> a' + b' \<Longrightarrow> double_add a b \<le> double_add a' b'"
  unfolding double_add_def by (rule round_double_mono)

lemma sweep_stop_range_end: "double_add (range_end r opts s) (- 50000000) = sweep_stop r opts s"
  by (simp add: range_end_def sweep_stop_def)

lemma sweep_value_Suc: "sweep_value step (Suc i) x = double_add (sweep_value step i x) step"
  by (induction i arbitrary: x) simp_all

lemma map_sweep_value_Suc:
  "map (\<lambda>i. sweep_value step i x) [0..<Suc m]
     = x # map (\<lambda>i. sweep_value step i (double_add x step)) [0..<m]"
  by (simp add: upt_conv_Cons map_Suc_upt [symmetric] del: upt_Suc)

lemma sweep_body_grows:
  assumes "sweep_body r c opts f results s = Some (Inr results', s')"
  shows "\<exists>more. results' = results @ more \<and> list_all (\<lambda>e. 30 < sup_dB e) more"
proof -
  from sweep_body_cases [OF assms] obtain rx_lo st where
    "results' = keep_result rx_lo st results" by auto
  then show ?thesis by (cases "30 < best_suppression st") (simp_all add: keep_result_def)
qed

lemma rx_lo_loop_post:
  assumes "rx_lo_loop r c opts x range_stop results s = Some y"
  shows "\<exists>evs m. trace (snd y) = trace s @ evs \<and> list_all (sweep_event r c) evs
          \<and> tuned_freqs evs = map (\<lambda>i. sweep_value (freq_step opts) i x) [0..<m]
          \<and> (\<forall>i<m. sweep_value (freq_step opts) i x < double_add range_stop (- 50000000))
          \<and> (\<forall>res. fst y = Inr res \<longrightarrow>
                \<not> sweep_value (freq_step opts) m x < double_add range_stop (- 50000000)
                \<and> (\<exists>more. res = results @ more \<and> list_all (\<lambda>e. 30 < sup_dB e) more))
          \<and> (\<forall>e. fst y = Inl e \<longrightarrow>
                (\<exists>k res sk. m = Suc k
                   \<and> sweep_body r c opts (sweep_value (freq_step opts) k x) res sk
                       = Some (Inl e, snd y)))"
  using assms
proof (induction rule: rx_lo_loop.raw_induct [rotated 1, consumes 1])
  case (1 loop r c opts x range_stop results s y)
  let ?bound = "double_add range_stop (- 50000000)"
  show ?case
  proof (cases "x < ?bound")
    case False
    with 1(2) have "y = (Inr results, s)" by simp
    with False show ?thesis
      by (intro exI [of _ "[]"] exI [of _ 0]) simp
  next
    case True
    with 1(2) obtain res1 s1 where body: "sweep_body r c opts x results s = Some (res1, s1)"
      by (auto split: option.splits)
    from sweep_body_events [OF body] obtain e1 where
      e1: "trace s1 = trace s @ Ev_set_rx_freq x # e1" "list_all (search_event r c) e1" by blast
    have q1: "list_all (sweep_event r c) (Ev_set_rx_freq x # e1)"
      using search_events_sweep [OF e1(2)] by (simp add: sweep_event_def)
    have t1: "tuned_freqs (Ev_set_rx_freq x # e1) = [x]"
      using tuned_freqs_search [OF e1(2)] by simp
    show ?thesis
    proof (cases res1)
      case (Inl e)
      with 1(2) True body have y: "y = (Inl e, s1)" by simp
      have a: "trace (snd y) = trace s @ Ev_set_rx_freq x # e1" using y e1(1) by simp
      have c: "tuned_freqs (Ev_set_rx_freq x # e1)
                 = map (\<lambda>i. sweep_value (freq_step opts) i x) [0..<Suc 0]"
        using t1 by simp
      have d: "\<forall>i<Suc 0. sweep_value (freq_step opts) i x < ?bound" using True by simp
      have e: "\<forall>res. fst y = Inr res \<longrightarrow>
                \<not> sweep_value (freq_step opts) (Suc 0) x < ?bound
                \<and> (\<exists>more. res = results @ more \<and> list_all (\<lambda>e. 30 < sup_dB e) more)"
        using y by simp
      have "sweep_body r c opts (sweep_value (freq_step opts) 0 x) results s
              = Some (Inl e, snd y)" using body Inl y by simp
      then have "\<exists>k res sk. Suc 0 = Suc k
                   \<and> sweep_body r c opts (sweep_value (freq_step opts) k x) res sk
                       = Some (Inl e, snd y)" by blast
      then have g: "\<forall>e. fst y = Inl e \<longrightarrow> (\<exists>k res sk. Suc 0 = Suc k
                   \<and> sweep_body r c opts (sweep_value (freq_step opts) k x) res sk
                       = Some (Inl e, snd y))" using y by simp
      show ?thesis
        by (rule exI [of _ "Ev_set_rx_freq x # e1"], rule exI [of _ "Suc 0"])
           (intro conjI a q1 c d e g)
    next
      case (Inr results1)
      with 1(2) True body have
        rec: "loop r c opts (double_add x (freq_step opts)) range_stop results1 s1 = Some y"
        by simp
      from body Inr have "sweep_body r c opts x results s = Some (Inr results1, s1)" by simp
      from sweep_body_grows [OF this] obtain more1 where
        m1: "results1 = results @ more1" "list_all (\<lambda>e. 30 < sup_dB e) more1" by blast
      let ?x' = "double_add x (freq_step opts)"
      from 1(1) [OF rec] obtain e2 m where
        IH: "trace (snd y) = trace s1 @ e2 \<and> list_all (sweep_event r c) e2
          \<and> tuned_freqs e2 = map (\<lambda>i. sweep_value (freq_step opts) i ?x') [0..<m]
          \<and> (\<forall>i<m. sweep_value (freq_step opts) i ?x' < ?bound)
          \<and> (\<forall>res. fst y = Inr res \<longrightarrow>
                \<not> sweep_value (freq_step opts) m ?x' < ?bound
                \<and> (\<exists>more. res = results1 @ more \<and> list_all (\<lambda>e. 30 < sup_dB e) more))
          \<and> (\<forall>e. fst y = Inl e \<longrightarrow>
                (\<exists>k res sk. m = Suc k
                   \<and> sweep_body r c opts (sweep_value (freq_step opts) k ?x') res sk
                       = Some (Inl e, snd y)))"
        by (elim exE) (rule that)
      note e2 = IH [THEN conjunct1] IH [THEN conjunct2, THEN conjunct1]
      note tf = IH [THEN conjunct2, THEN conjunct2, THEN conjunct1]
      note lt = IH [THEN conjunct2, THEN conjunct2, THEN conjunct2, THEN conjunct1]
      note fin = IH [THEN conjunct2, THEN conjunct2, THEN conjunct2, THEN conjunct2, THEN conjunct1]
      note err = IH [THEN conjunct2, THEN conjunct2, THEN conjunct2, THEN conjunct2, THEN conjunct2]
      have a: "trace (snd y) = trace s @ (Ev_set_rx_freq x # e1) @ e2" using e1(1) e2(1) by simp
      have b: "list_all (sweep_event r c) ((Ev_set_rx_freq x # e1) @ e2)" using q1 e2(2) by simp
      have "tuned_freqs ((Ev_set_rx_freq x # e1) @ e2) = x # tuned_freqs e2"
        using t1 by (simp only: tuned_freqs_append) simp
      then have c: "tuned_freqs ((Ev_set_rx_freq x # e1) @ e2)
                      = map (\<lambda>i. sweep_value (freq_step opts) i x) [0..<Suc m]"
        unfolding tf map_sweep_value_Suc .
      have d: "\<forall>i<Suc m. sweep_value (freq_step opts) i x < ?bound"
      proof (intro allI impI)
        fix i assume "i < Suc m"
        show "sweep_value (freq_step opts) i x < ?bound"
        proof (cases i)
          case 0
          with True show ?thesis by simp
        next
          case (Suc j)
          with \<open>i < Suc m\<close> lt show ?thesis by simp
        qed
      qed
      have e: "\<forall>res. fst y = Inr res \<longrightarrow>
                \<not> sweep_value (freq_step opts) (Suc m) x < ?bound
                \<and> (\<exists>more. res = results @ more \<and> list_all (\<lambda>e. 30 < sup_dB e) more)"
      proof (intro allI impI)
        fix res assume "fst y = Inr res"
        with fin obtain more where
          f: "\<not> sweep_value (freq_step opts) m ?x' < ?bound" "res = results1 @ more"
            "list_all (\<lambda>e. 30 < sup_dB e) more" by blast
        from f(2,3) m1 have "res = results @ (more1 @ more)"
          "list_all (\<lambda>e. 30 < sup_dB e) (more1 @ more)" by simp_all
        then have "\<exists>more. res = results @ more \<and> list_all (\<lambda>e. 30 < sup_dB e) more" by blast
        moreover from f(1) have "\<not> sweep_value (freq_step opts) (Suc m) x < ?bound" by simp
        ultimately show "\<not> sweep_value (freq_step opts) (Suc m) x < ?bound
                \<and> (\<exists>more. res = results @ more \<and> list_all (\<lambda>e. 30 < sup_dB e) more)"
          by (intro conjI)
      qed
      have g: "\<forall>e. fst y = Inl e \<longrightarrow>
                (\<exists>k res sk. Suc m = Suc k
                   \<and> sweep_body r c opts (sweep_value (freq_step opts) k x) res sk
                       = Some (Inl e, snd y))"
      proof (intro allI impI)
        fix e assume "fst y = Inl e"
        with err obtain k res sk where
          "m = Suc k" "sweep_body r c opts (sweep_value (freq_step opts) k ?x') res sk
                       = Some (Inl e, snd y)" by blast
        then have "Suc m = Suc (Suc k)
            \<and> sweep_body r c opts (sweep_value (freq_step opts) (Suc k) x) res sk
                       = Some (Inl e, snd y)" by simp
        then show "\<exists>k res sk. Suc m = Suc k
                   \<and> sweep_body r c opts (sweep_value (freq_step opts) k x) res sk
                       = Some (Inl e, snd y)" by blast
      qed
      show ?thesis
        by (rule exI [of _ "(Ev_set_rx_freq x # e1) @ e2"], rule exI [of _ "Suc m"])
           (intro conjI a b c d e g)
    qed
  qed
qed

lemma sweep_body_returns:
  assumes "tune_ok r" and "capture_ok r" and "2 \<le> num_search_steps c"
  shows "\<exists>results' s'. sweep_body r c opts f results s = Some (Inr results', s')"
proof -
  from assms(1) obtain rx_lo s1 where
    tune: "tune_rx_and_tx r f (tx_offset opts) s = Some (Inr rx_lo, s1)"
    unfolding tune_ok_def by blast
  from search_iters_returns [OF assms(2,3) proper_window_init] obtain st s2 where
    "search_iters r c (num_search_iters c) init_search s1 = Some (Inr st, s2)" by blast
  with tune show ?thesis by (simp add: sweep_body_def)
qed

lemma rx_lo_loop_returns:
  assumes "tune_ok r" and "capture_ok r" and "2 \<le> num_search_steps c"
    and "\<not> sweep_value (freq_step opts) n x < double_add range_stop (- 50000000)"
  shows "\<exists>results' s'. rx_lo_loop r c opts x range_stop results s = Some (Inr results', s')"
  using assms(4)
proof (induction n arbitrary: x results s)
  case 0
  then show ?case by (subst rx_lo_loop.simps) simp
next
  case (Suc n)
  show ?case
  proof (cases "x < double_add range_stop (- 50000000)")
    case False
    then show ?thesis by (subst rx_lo_loop.simps) simp
  next
    case True
    from sweep_body_returns [OF assms(1,2,3)] obtain results1 s1 where
      body: "sweep_body r c opts x results s = Some (Inr results1, s1)" by blast
    from Suc.prems have "\<not> sweep_value (freq_step opts) n (double_add x (freq_step opts))
        < double_add range_stop (- 50000000)" by simp
    from Suc.IH [OF this] obtain results' s' where
      "rx_lo_loop r c opts (double_add x (freq_step opts)) range_stop results1 s1
         = Some (Inr results', s')" by blast
    with True body show ?thesis by (subst rx_lo_loop.simps) simp
  qed
qed

lemma rx_lo_loop_returns_not:
  assumes "rx_lo_loop r c opts x range_stop results s = Some y"
    and "tune_ok r" and "capture_ok r" and "2 \<le> num_search_steps c"
  shows "\<exists>n. \<not> sweep_value (freq_step opts) n x < double_add range_stop (- 50000000)"
  using assms
proof (induction rule: rx_lo_loop.raw_induct [rotated 1, consumes 1])
  case (1 loop r c opts x range_stop results s y)
  show ?case
  proof (cases "x < double_add range_stop (- 50000000)")
    case False
    then have "\<not> sweep_value (freq_step opts) 0 x < double_add range_stop (- 50000000)" by simp
    then show ?thesis ..
  next
    case True
    from sweep_body_returns [OF 1(3,4,5)] obtain results1 s1 where
      body: "sweep_body r c opts x results s = Some (Inr results1, s1)" by blast
    with 1(2) True have
      "loop r c opts (double_add x (freq_step opts)) range_stop results1 s1 = Some y" by simp
    from 1(1) [OF this 1(3,4,5)] obtain n where
      "\<not> sweep_value (freq_step opts) n (double_add x (freq_step opts))
         < double_add range_stop (- 50000000)" ..
    then have "\<not> sweep_value (freq_step opts) (Suc n) x < double_add range_stop (- 50000000)"
      by simp
    then show ?thesis ..
  qed
qed

lemma rx_lo_loop_diverges:
  assumes "tune_ok r" and "capture_ok r" and "2 \<le> num_search_steps c"
    and "\<forall>n. sweep_value (freq_step opts) n x < double_add range_stop (- 50000000)"
  shows "rx_lo_loop r c opts x range_stop results s = None"
proof (cases "rx_lo_loop r c opts x range_stop results s")
  case None
  then show ?thesis .
next
  case (Some y)
  from rx_lo_loop_returns_not [OF Some assms(1,2,3)] assms(4) show ?thesis by blast
qed


subsection \<open>Sums that are exact in double arithmetic\<close>

lemma sweep_value_of_int:
  assumes "0 \<le> a" and "0 \<le> b" and "a + int i * b < 2 ^ 53"
  shows "sweep_value (of_int b) i (of_int a) = of_int (a + int i * b)"
  using assms
proof (induction i arbitrary: a)
  case 0
  then show ?case by simp
next
  case (Suc i)
  have eq: "a + int (Suc i) * b = (a + b) + int i * b" by (simp add: algebra_simps)
  have "0 \<le> int i * b" using Suc.prems(2) by simp
  then have "a + b \<le> a + int (Suc i) * b" unfolding eq by linarith
  with Suc.prems have "\<bar>a + b\<bar> < 2 ^ 53" by linarith
  then have d: "double_add (of_int a) (of_int b) = of_int (a + b)" by (rule double_add_of_int)
  have "0 \<le> a + b" using Suc.prems by simp
  from Suc.IH [OF this Suc.prems(2)] Suc.prems(3) eq
  have "sweep_value (of_int b) i (of_int (a + b)) = of_int (a + b + int i * b)" by simp
  then show ?case unfolding eq by (simp add: d)
qed

lemma sweep_value_fixed:
  assumes "double_add x step = x"
  shows "sweep_value step i x = x"
  by (induction i) (simp_all add: assms)

lemma sweep_narrow:
  assumes "hi - lo \<le> 2 * 50000000"
  shows "\<not> double_add lo 50000000 < double_add hi (- 50000000)"
proof -
  from assms have "hi + - 50000000 \<le> lo + 50000000" by simp
  from double_add_mono [OF this] show ?thesis by simp
qed

subsection \<open>Main\<close>

lemma main_unfold:
  assumes "\<not> help_flag opts" and "has_cal_antennas r s"
  shows "UHD_SAFE_MAIN r c opts s =
    (case rx_lo_loop r c opts (sweep_start r opts s) (range_end r opts s) [] (started r opts s) of
       None \<Rightarrow> None
     | Some (Inl e, s2) \<Rightarrow> Some (Inl e, s2)
     | Some (Inr results, s2) \<Rightarrow>
         Some (Inr 0, s2\<lparr>trace := trace s2 @
                 [Ev_interrupt_all, Ev_join_all, Ev_store_results results]\<rparr>))"
  using assms
  by (simp add: UHD_SAFE_MAIN_def has_cal_antennas_def started_def sweep_start_def
      range_end_def Let_def)

lemma main_not_started:
  "help_flag opts \<Longrightarrow> UHD_SAFE_MAIN r c opts s = Some (Inr (- 1), s)"
  "\<not> help_flag opts \<Longrightarrow> \<not> has_cal_antennas r s \<Longrightarrow>
     UHD_SAFE_MAIN r c opts s = Some (Inl No_cal_antenna, s)"
  by (auto simp: UHD_SAFE_MAIN_def has_cal_antennas_def)

lemma main_loop:
  assumes "UHD_SAFE_MAIN r c opts s = Some (res, s')" and "\<not> help_flag opts"
    and "has_cal_antennas r s"
  shows "(\<exists>e. res = Inl e
            \<and> rx_lo_loop r c opts (sweep_start r opts s) (range_end r opts s) []
                 (started r opts s) = Some (Inl e, s'))
       \<or> (\<exists>results s2. res = Inr 0
            \<and> rx_lo_loop r c opts (sweep_start r opts s) (range_end r opts s) []
                 (started r opts s) = Some (Inr results, s2)
            \<and> s' = s2\<lparr>trace := trace s2 @
                 [Ev_interrupt_all, Ev_join_all, Ev_store_results results]\<rparr>)"
proof (cases "rx_lo_loop r c opts (sweep_start r opts s) (range_end r opts s) []
                 (started r opts s)")
  case None
  with assms show ?thesis unfolding main_unfold [OF assms(2,3)] by simp
next
  case (Some y)
  obtain lr s2 where y: "y = (lr, s2)" by (cases y)
  show ?thesis
  proof (cases lr)
    case (Inl e)
    with assms(1) Some y show ?thesis unfolding main_unfold [OF assms(2,3)] by simp
  next
    case (Inr results)
    with assms(1) Some y show ?thesis unfolding main_unfold [OF assms(2,3)] by auto
  qed
qed

lemma main_aborted:
  assumes "UHD_SAFE_MAIN r c opts s = Some (Inl e, s')"
  shows "(e = No_cal_antenna \<and> s' = s \<and> \<not> has_cal_antennas r s)
       \<or> (has_cal_antennas r s
            \<and> rx_lo_loop r c opts (sweep_start r opts s) (range_end r opts s) []
                 (started r opts s) = Some (Inl e, s')
            \<and> (\<exists>evs m. new_events s s' = Ev_create_tx_thread (tx_wave_ampl opts) # evs
                  \<and> list_all (sweep_event r c) evs
                  \<and> tuned_freqs evs
                      = map (\<lambda>i. sweep_value (freq_step opts) i (sweep_start r opts s)) [0..<Suc m]
                  \<and> (\<forall>i<Suc m. sweep_value (freq_step opts) i (sweep_start r opts s)
                                  < sweep_stop r opts s)
                  \<and> (\<exists>res sk. sweep_body r c opts
                         (sweep_value (freq_step opts) m (sweep_start r opts s)) res sk
                       = Some (Inl e, s'))))"
proof -
  from assms have nh: "\<not> help_flag opts" by (auto simp: UHD_SAFE_MAIN_def)
  show ?thesis
  proof (cases "has_cal_antennas r s")
    case False
    with assms nh main_not_started(2) [of opts r s c] show ?thesis by simp
  next
    case True
    from main_loop [OF assms nh True]
    have loop: "rx_lo_loop r c opts (sweep_start r opts s) (range_end r opts s) []
        (started r opts s) = Some (Inl e, s')" by simp
    from rx_lo_loop_post [OF loop, unfolded sweep_stop_range_end] obtain evs m where
      P: "trace (snd (Inl e :: error + result_t list, s')) = trace (started r opts s) @ evs
          \<and> list_all (sweep_event r c) evs
          \<and> tuned_freqs evs
               = map (\<lambda>i. sweep_value (freq_step opts) i (sweep_start r opts s)) [0..<m]
          \<and> (\<forall>i<m. sweep_value (freq_step opts) i (sweep_start r opts s) < sweep_stop r opts s)
          \<and> (\<forall>res. fst (Inl e :: error + result_t list, s') = Inr res \<longrightarrow>
                \<not> sweep_value (freq_step opts) m (sweep_start r opts s) < sweep_stop r opts s
                \<and> (\<exists>more. res = [] @ more \<and> list_all (\<lambda>e. 30 < sup_dB e) more))
          \<and> (\<forall>ea. fst (Inl e :: error + result_t list, s') = Inl ea \<longrightarrow>
                (\<exists>k res sk. m = Suc k
                   \<and> sweep_body r c opts (sweep_value (freq_step opts) k (sweep_start r opts s))
                        res sk = Some (Inl ea, snd (Inl e :: error + result_t list, s'))))"
      by (elim exE) (rule that)
    note tr = P [THEN conjunct1] and q = P [THEN conjunct2, THEN conjunct1]
      and tf = P [THEN conjunct2, THEN conjunct2, THEN conjunct1]
      and lt = P [THEN conjunct2, THEN conjunct2, THEN conjunct2, THEN conjunct1]
      and err = P [THEN conjunct2, THEN conjunct2, THEN conjunct2, THEN conjunct2, THEN conjunct2]
    from err obtain k res sk where
      k: "m = Suc k" "sweep_body r c opts (sweep_value (freq_step opts) k (sweep_start r opts s))
                        res sk = Some (Inl e, s')" by auto
    from tr have ne: "new_events s s' = Ev_create_tx_thread (tx_wave_ampl opts) # evs"
      by (simp add: new_events_def started_def)
    have "\<exists>evs m. new_events s s' = Ev_create_tx_thread (tx_wave_ampl opts) # evs
                  \<and> list_all (sweep_event r c) evs
                  \<and> tuned_freqs evs
                      = map (\<lambda>i. sweep_value (freq_step opts) i (sweep_start r opts s)) [0..<Suc m]
                  \<and> (\<forall>i<Suc m. sweep_value (freq_step opts) i (sweep_start r opts s)
                                  < sweep_stop r opts s)
                  \<and> (\<exists>res sk. sweep_body r c opts
                         (sweep_value (freq_step opts) m (sweep_start r opts s)) res sk
                       = Some (Inl e, s'))"
      apply (rule exI [of _ evs], rule exI [of _ k])
      using ne q tf lt k(2) unfolding k(1) by (intro conjI exI) assumption+
    with True loop show ?thesis by (intro disjI2 conjI)
  qed
qed

lemma main_completed:
  assumes "UHD_SAFE_MAIN r c opts s = Some (Inr v, s')" and "\<not> help_flag opts"
  shows "v = 0 \<and> has_cal_antennas r s
       \<and> (\<exists>results evs m.
            new_events s s' = Ev_create_tx_thread (tx_wave_ampl opts) # evs
                                @ [Ev_interrupt_all, Ev_join_all, Ev_store_results results]
          \<and> list_all (sweep_event r c) evs
          \<and> list_all (\<lambda>e. 30 < sup_dB e) results
          \<and> tuned_freqs evs
               = map (\<lambda>i. sweep_value (freq_step opts) i (sweep_start r opts s)) [0..<m]
          \<and> (\<forall>i<m. sweep_value (freq_step opts) i (sweep_start r opts s) < sweep_stop r opts s)
          \<and> \<not> sweep_value (freq_step opts) m (sweep_start r opts s) < sweep_stop r opts s)"
proof -
  have cal: "has_cal_antennas r s"
    using assms main_not_started(2) [of opts r s c] by auto
  from main_loop [OF assms cal] obtain results s2 where
    loop: "rx_lo_loop r c opts (sweep_start r opts s) (range_end r opts s) []
        (started r opts s) = Some (Inr results, s2)"
    and v: "v = 0"
    and s': "s' = s2\<lparr>trace := trace s2 @ [Ev_interrupt_all, Ev_join_all, Ev_store_results results]\<rparr>"
    by auto
  from rx_lo_loop_post [OF loop, unfolded sweep_stop_range_end] obtain evs m where
    P: "trace (snd (Inr results :: error + result_t list, s2)) = trace (started r opts s) @ evs
          \<and> list_all (sweep_event r c) evs
          \<and> tuned_freqs evs
               = map (\<lambda>i. sweep_value (freq_step opts) i (sweep_start r opts s)) [0..<m]
          \<and> (\<forall>i<m. sweep_value (freq_step opts) i (sweep_start r opts s) < sweep_stop r opts s)
          \<and> (\<forall>res. fst (Inr results :: error + result_t list, s2) = Inr res \<longrightarrow>
                \<not> sweep_value (freq_step opts) m (sweep_start r opts s) < sweep_stop r opts s
                \<and> (\<exists>more. res = [] @ more \<and> list_all (\<lambda>e. 30 < sup_dB e) more))
          \<and> (\<forall>ea. fst (Inr results :: error + result_t list, s2) = Inl ea \<longrightarrow>
                (\<exists>k res sk. m = Suc k
                   \<and> sweep_body r c opts (sweep_value (freq_step opts) k (sweep_start r opts s))
                        res sk = Some (Inl ea, snd (Inr results :: error + result_t list, s2))))"
    by (elim exE) (rule that)
  note tr = P [THEN conjunct1] and q = P [THEN conjunct2, THEN conjunct1]
    and tf = P [THEN conjunct2, THEN conjunct2, THEN conjunct1]
    and lt = P [THEN conjunct2, THEN conjunct2, THEN conjunct2, THEN conjunct1]
    and fin = P [THEN conjunct2, THEN conjunct2, THEN conjunct2, THEN conjunct2, THEN conjunct1]
  from fin have stop: "\<not> sweep_value (freq_step opts) m (sweep_start r opts s) < sweep_stop r opts s"
    and acc: "list_all (\<lambda>e. 30 < sup_dB e) results" by simp_all
  from tr s' have ne: "new_events s s' = Ev_create_tx_thread (tx_wave_ampl opts) # evs
                                @ [Ev_interrupt_all, Ev_join_all, Ev_store_results results]"
    by (simp add: new_events_def started_def)
  have "\<exists>results evs m.
            new_events s s' = Ev_create_tx_thread (tx_wave_ampl opts) # evs
                                @ [Ev_interrupt_all, Ev_join_all, Ev_store_results results]
          \<and> list_all (sweep_event r c) evs
          \<and> list_all (\<lambda>e. 30 < sup_dB e) results
          \<and> tuned_freqs evs
               = map (\<lambda>i. sweep_value (freq_step opts) i (sweep_start r opts s)) [0..<m]
          \<and> (\<forall>i<m. sweep_value (freq_step opts) i (sweep_start r opts s) < sweep_stop r opts s)
          \<and> \<not> sweep_value (freq_step opts) m (sweep_start r opts s) < sweep_stop r opts s"
    by (rule exI [of _ results], rule exI [of _ evs], rule exI [of _ m])
       (intro conjI ne q acc tf lt stop)
  with v cal show ?thesis by (intro conjI)
qed

lemma main_returns:
  assumes "\<not> help_flag opts" and "has_cal_antennas r s"
    and "2 \<le> num_search_steps c" and "tune_ok r" and "capture_ok r"
    and "\<not> sweep_value (freq_step opts) n (sweep_start r opts s) < sweep_stop r opts s"
  shows "\<exists>s'. UHD_SAFE_MAIN r c opts s = Some (Inr 0, s')"
proof -
  from rx_lo_loop_returns [OF assms(4,5,3), where n = n and opts = opts
      and x = "sweep_start r opts s" and range_stop = "range_end r opts s"] assms(6)
  obtain results s2 where
    "rx_lo_loop r c opts (sweep_start r opts s) (range_end r opts s) []
        (started r opts s) = Some (Inr results, s2)"
    unfolding sweep_stop_range_end by blast
  then show ?thesis unfolding main_unfold [OF assms(1,2)] by simp
qed

lemma main_diverges:
  assumes "\<not> help_flag opts" and "has_cal_antennas r s"
    and "2 \<le> num_search_steps c" and "tune_ok r" and "capture_ok r"
    and "\<forall>n. sweep_value (freq_step opts) n (sweep_start r opts s) < sweep_stop r opts s"
  shows "UHD_SAFE_MAIN r c opts s = None"
proof -
  from assms(6) have "\<forall>n. sweep_value (freq_step opts) n (sweep_start r opts s)
      < double_add (range_end r opts s) (- 50000000)" unfolding sweep_stop_range_end .
  from rx_lo_loop_diverges [OF assms(4,5,3) this]
  show ?thesis unfolding main_unfold [OF assms(1,2)] by simp
qed

lemma main_empty_sweep:
  assumes "\<not> help_flag opts" and "has_cal_antennas r s"
    and "\<not> sweep_start r opts s < sweep_stop r opts s"
  shows "UHD_SAFE_MAIN r c opts s
           = Some (Inr 0, (started r opts s)\<lparr>trace := trace s @
                  [Ev_create_tx_thread (tx_wave_ampl opts),
                   Ev_interrupt_all, Ev_join_all, Ev_store_results []]\<rparr>)"
proof -
  from assms(3) have "rx_lo_loop r c opts (sweep_start r opts s) (range_end r opts s) []
        (started r opts s) = Some (Inr [], started r opts s)"
    by (subst rx_lo_loop.simps) (simp add: sweep_stop_range_end)
  then show ?thesis unfolding main_unfold [OF assms(1,2)] by (simp add: started_def)
qed

lemma main_narrow_range:
  assumes "\<not> help_flag opts" and "has_cal_antennas r s"
    and "snd (get_rx_freq_range r (configure r opts (dev s)))
           - fst (get_rx_freq_range r (configure r opts (dev s))) \<le> 2 * 50000000"
  shows "\<exists>s'. UHD_SAFE_MAIN r c opts s = Some (Inr 0, s')
           \<and> new_events s s' = [Ev_create_tx_thread (tx_wave_ampl opts),
                                  Ev_interrupt_all, Ev_join_all, Ev_store_results []]"
proof -
  from sweep_narrow [OF assms(3)] have "\<not> sweep_start r opts s < sweep_stop r opts s"
    by (simp add: sweep_start_def sweep_stop_def)
  from main_empty_sweep [OF assms(1,2) this] show ?thesis
    by (simp add: new_events_def)
qed

lemma main_loop_error:
  assumes "\<not> help_flag opts" and "has_cal_antennas r s"
    and "rx_lo_loop r c opts (sweep_start r opts s) (range_end r opts s) []
           (started r opts s) = Some (Inl e, s')"
  shows "UHD_SAFE_MAIN r c opts s = Some (Inl e, s')"
  unfolding main_unfold [OF assms(1,2)] using assms(3) by simp

lemma main_aborted_quiet:
  assumes "UHD_SAFE_MAIN r c opts s = Some (Inl e, s')"
  shows "stored_results (new_events s s') = []"
    and "Ev_interrupt_all \<notin> set (new_events s s')"
    and "Ev_join_all \<notin> set (new_events s s')"
proof -
  from main_aborted [OF assms] consider (cal) "s' = s"
    | (loop) evs where "new_events s s' = Ev_create_tx_thread (tx_wave_ampl opts) # evs"
        "list_all (sweep_event r c) evs" by blast
  then have "stored_results (new_events s s') = [] \<and> Ev_interrupt_all \<notin> set (new_events s s')
      \<and> Ev_join_all \<notin> set (new_events s s')"
  proof cases
    case cal
    then show ?thesis by (simp add: new_events_def)
  next
    case loop
    with sweep_events_quiet(1,2,3) [OF loop(2)] show ?thesis by simp
  qed
  then show "stored_results (new_events s s') = []"
    and "Ev_interrupt_all \<notin> set (new_events s s')"
    and "Ev_join_all \<notin> set (new_events s s')" by simp_all
qed

lemma main_completed_shutdown:
  assumes "UHD_SAFE_MAIN r c opts s = Some (Inr v, s')" and "\<not> help_flag opts"
  shows "\<exists>results evs.
            new_events s s' = Ev_create_tx_thread (tx_wave_ampl opts) # evs
                                @ [Ev_interrupt_all, Ev_join_all, Ev_store_results results]
          \<and> Ev_interrupt_all \<notin> set evs \<and> Ev_join_all \<notin> set evs
          \<and> stored_results (new_events s s') = [results]"
proof -
  from main_completed [OF assms] obtain results evs where
    ev: "new_events s s' = Ev_create_tx_thread (tx_wave_ampl opts) # evs
                                @ [Ev_interrupt_all, Ev_join_all, Ev_store_results results]"
    and q: "list_all (sweep_event r c) evs" by blast
  from sweep_events_quiet(1,2,3) [OF q] ev show ?thesis by simp
qed

subsection \<open>Runs on the simulated device\<close>

lemma tune_sim_locked:
  "tune_rx_and_tx (sim_radio True missing code rng) f offs s
     = Some (Inr f, s\<lparr>dev := (dev s)\<lparr>sim_rx_freq := f, sim_time := sim_time (dev s) + 110000\<rparr>,
                       trace := trace s @ [Ev_set_rx_freq f]\<rparr>)"
  by (subst tune_rx_and_tx_def, subst wait_lo_locked.simps) (simp add: sim_radio_def Let_def)

lemma tune_ok_sim: "tune_ok (sim_radio True missing code rng)"
  unfolding tune_ok_def tune_sim_locked by blast

lemma tune_sim_unlocked:
  "tune_rx_and_tx (sim_radio False missing code rng) f offs s
     = Some (Inl Lock_timeout,
             s\<lparr>dev := (dev s)\<lparr>sim_rx_freq := f, sim_time := sim_time (dev s) + 230000\<rparr>,
               trace := trace s @ [Ev_set_rx_freq f]\<rparr>)"
  by (subst tune_rx_and_tx_def, subst wait_lo_locked.simps, subst wait_lo_locked.simps)
     (simp add: sim_radio_def Let_def)

lemma sim_search_constant:
  assumes "0 < v" and "0 < k" and "2 \<le> n"
  shows "\<exists>st s2. search_iters (sim_radio True 0 0 rng) (sim_utils n k v) k init_search s1
                  = Some (Inr st, s2)
          \<and> best_of st = (- (3/10), - (3/10), rcis (7/10) (- (3/10) * tau (sim_utils n k v)), v)
          \<and> list_all (\<lambda>m. suppression_of m = v) (measurements (new_events s1 s2))"
proof -
  let ?r = "sim_radio True 0 0 rng" and ?c = "sim_utils n k v"
  have n: "2 \<le> num_search_steps ?c" using assms(3) by (simp add: sim_utils_def)
  from search_iters_returns [OF capture_ok_sim n proper_window_init, where k = k and s = s1]
  obtain st s2 where run: "search_iters ?r ?c k init_search s1 = Some (Inr st, s2)" by blast
  from search_iters_measured_values [OF run]
  have all: "\<forall>m\<in>set (measurements (new_events s1 s2)). suppression_of m = v"
    by (auto simp: measured_suppression_sim)
  from search_constant_measure [OF run assms(2) n assms(1) all] run all show ?thesis
    by (auto simp: list_all_iff)
qed

lemma has_cal_sim: "has_cal_antennas (sim_radio locked missing code rng) s"
  by (simp add: has_cal_antennas_def sim_radio_def)

lemma sim_sweep_range:
  "sweep_start (sim_radio locked missing code (lo, hi)) opts s = double_add lo 50000000"
  "sweep_stop (sim_radio locked missing code (lo, hi)) opts s = double_add hi (- 50000000)"
  "range_end (sim_radio locked missing code (lo, hi)) opts s = hi"
  by (simp_all add: sweep_start_def sweep_stop_def range_end_def sim_radio_def)

lemma double_sums:
  "double_add 100000000 50000000 = 150000000"
  "double_add 300000000 (- 50000000) = 250000000"
  "double_add 200000000 (- 50000000) = 150000000"
  "double_add 150000000 10000000 = 160000000"
  "double_add 240000000 10000000 = 250000000"
  using double_add_of_int [of 100000000 50000000] double_add_of_int [of 300000000 "- 50000000"]
    double_add_of_int [of 200000000 "- 50000000"] double_add_of_int [of 150000000 10000000]
    double_add_of_int [of 240000000 10000000]
  by simp_all

lemma sim_sweep_value:
  assumes "i \<le> 10"
  shows "sweep_value 10000000 i 150000000 = 150000000 + real i * 10000000"
proof -
  from assms have "150000000 + int i * 10000000 < 2 ^ 53" by simp
  from sweep_value_of_int [of 150000000 10000000 i, OF _ _ this] show ?thesis by simp
qed

lemma sim_sweep_ends:
  "\<not> sweep_value (freq_step default_options) 10
       (sweep_start (sim_radio locked missing code (100000000, 300000000)) default_options s)
     < sweep_stop (sim_radio locked missing code (100000000, 300000000)) default_options s"
  by (simp add: sim_sweep_range double_sums sim_sweep_value) (simp add: default_options_def sim_sweep_value)

lemma rx_lo_loop_tune_error:
  assumes "rx_lo_i < double_add range_stop (- 50000000)"
    and "tune_rx_and_tx r rx_lo_i (tx_offset opts) s = Some (Inl e, s1)"
  shows "rx_lo_loop r c opts rx_lo_i range_stop results s = Some (Inl e, s1)"
  using assms by (subst rx_lo_loop.simps) (simp add: sweep_body_def)

lemma main_sim_unlocked:
  "UHD_SAFE_MAIN (sim_radio False 0 0 (100000000, 300000000)) c opts (sim_state n)
     = (if help_flag opts then Some (Inr (- 1), sim_state n)
        else Some (Inl Lock_timeout,
          \<lparr>dev = \<lparr>sim_time = 230000, sim_rx_freq = 150000000\<rparr>,
           buff = replicate (nsamps opts) 0,
           trace = [Ev_create_tx_thread (tx_wave_ampl opts), Ev_set_rx_freq 150000000]\<rparr>))"
proof (cases "help_flag opts")
  case True
  then show ?thesis by (simp add: main_not_started(1))
next
  case False
  let ?u = "sim_radio False 0 0 (100000000, 300000000)"
  have "rx_lo_loop ?u c opts 150000000 300000000 [] (started ?u opts (sim_state n))
      = Some (Inl Lock_timeout,
          \<lparr>dev = \<lparr>sim_time = 230000, sim_rx_freq = 150000000\<rparr>,
           buff = replicate (nsamps opts) 0,
           trace = [Ev_create_tx_thread (tx_wave_ampl opts), Ev_set_rx_freq 150000000]\<rparr>)"
    by (rule trans [OF rx_lo_loop_tune_error [OF _ tune_sim_unlocked]])
       (simp_all add: double_sums started_def sim_state_def sim_dev0_def configure_def sim_radio_def)
  with False show ?thesis
    unfolding main_unfold [OF False has_cal_sim] sim_sweep_range double_sums by simp
qed

lemma tx_thread_last_send:
  assumes "tx_thread tx ampl t = Some t'"
  shows "\<exists>t1. t' = send tx [] 0 \<lparr>has_time_spec = False, end_of_burst = True\<rparr> t1"
  using assms by (auto simp: tx_thread_def Let_def split: option.splits)

lemma tx_thread_interrupted:
  assumes "fst (interruption_requested tx t)"
  shows "tx_thread tx ampl t
           = Some (send tx [] 0 \<lparr>has_time_spec = False, end_of_burst = True\<rparr>
                     (snd (interruption_requested tx t)))"
  using assms
  by (subst tx_thread_def, subst tx_send_loop.simps) (simp add: split_beta Let_def)

text \<open>
  Claim C4. When the sweep accepts an entry at a frequency, the suppression of the entry is at
  least the suppression measured at every grid point of every round of the search at that
  frequency, and it was measured at one of these grid points, whose correction is the one stored
  in the entry.
\<close>

theorem accepted_entry_is_maximum:
  assumes "sweep_body r c opts rx_lo_i results s = Some (Inr results', s')"
    and "results' \<noteq> results"
  shows "\<exists>e. results' = results @ [e] \<and> 30 < sup_dB e
           \<and> (\<forall>m\<in>set (measurements (new_events s s')). suppression_of m \<le> sup_dB e)
           \<and> (\<exists>p a x. (p, a, x, sup_dB e) \<in> set (measurements (new_events s s'))
                 \<and> real_corr e = Re x \<and> imag_corr e = Im x)"
  using assms by (rule sweep_body_accepted)

theorem accepted_entry_is_maximum_witness:
  "\<exists>results' s' e. sweep_body (sim_radio True 0 0 (100000000, 300000000)) (sim_utils 5 7 35)
                      default_options 150000000 [] (sim_state 10000) = Some (Inr results', s')
     \<and> results' = [e] \<and> 30 < sup_dB e
     \<and> list_all (\<lambda>m. suppression_of m \<le> sup_dB e)
         (measurements (new_events (sim_state 10000) s'))"
proof -
  let ?r = "sim_radio True 0 0 (100000000, 300000000)" and ?c = "sim_utils 5 7 35"
  let ?s1 = "(sim_state 10000)\<lparr>dev := (dev (sim_state 10000))\<lparr>sim_rx_freq := 150000000,
                  sim_time := sim_time (dev (sim_state 10000)) + 110000\<rparr>,
               trace := trace (sim_state 10000) @ [Ev_set_rx_freq 150000000]\<rparr>"
  from sim_search_constant [of 35 7 5 "(100000000, 300000000)" ?s1] obtain st s2 where
    run: "search_iters ?r ?c 7 init_search ?s1 = Some (Inr st, s2)"
    and b: "best_of st = (- (3/10), - (3/10), rcis (7/10) (- (3/10) * tau ?c), 35)" by auto
  from b have bs: "best_suppression st = 35" by (simp add: best_of_def)
  have iters: "num_search_iters ?c = 7" by (simp add: sim_utils_def)
  have body: "sweep_body ?r ?c default_options 150000000 [] (sim_state 10000)
                = Some (Inr (keep_result 150000000 st []), s2)"
    by (simp add: sweep_body_def tune_sim_locked iters run)
  have ne: "keep_result 150000000 st [] \<noteq> []" by (simp add: keep_result_def bs)
  from accepted_entry_is_maximum [OF body ne] obtain e where
    "keep_result 150000000 st [] = [e]" "30 < sup_dB e"
    "\<forall>m\<in>set (measurements (new_events (sim_state 10000) s2)). suppression_of m \<le> sup_dB e"
    by auto
  with body show ?thesis by (auto simp: list_all_iff)
qed

text \<open>
  Claim C9, as amended. On the exit path of a completed sweep the main thread signals the
  transmit thread to stop and joins it, after the last step of the sweep and before it stores
  the results; the transmit thread, when it returns, has sent its end-of-burst packet last, and
  it does so at once if the interruption is requested at its first poll. On an exit caused by
  an error (a lock timeout or a failed capture) the exception leaves \<open>UHD_SAFE_MAIN\<close> and the
  main thread neither signals nor joins the transmit thread.
\<close>

theorem transmitter_stopped_on_completion:
  "(\<not> help_flag opts \<and> UHD_SAFE_MAIN r c opts s = Some (Inr v, s') \<longrightarrow>
      (\<exists>results evs.
          new_events s s' = Ev_create_tx_thread (tx_wave_ampl opts) # evs
                              @ [Ev_interrupt_all, Ev_join_all, Ev_store_results results]
        \<and> Ev_interrupt_all \<notin> set evs \<and> Ev_join_all \<notin> set evs))
   \<and> (UHD_SAFE_MAIN r c opts s = Some (Inl e, s') \<longrightarrow>
        Ev_interrupt_all \<notin> set (new_events s s') \<and> Ev_join_all \<notin> set (new_events s s'))
   \<and> (tx_thread tx ampl t = Some t' \<longrightarrow>
        (\<exists>t1. t' = send tx [] 0 \<lparr>has_time_spec = False, end_of_burst = True\<rparr> t1))
   \<and> (fst (interruption_requested tx t) \<longrightarrow>
        tx_thread tx ampl t
          = Some (send tx [] 0 \<lparr>has_time_spec = False, end_of_burst = True\<rparr>
                    (snd (interruption_requested tx t))))"
proof (intro conjI impI)
  assume "\<not> help_flag opts \<and> UHD_SAFE_MAIN r c opts s = Some (Inr v, s')"
  then show "\<exists>results evs.
          new_events s s' = Ev_create_tx_thread (tx_wave_ampl opts) # evs
                              @ [Ev_interrupt_all, Ev_join_all, Ev_store_results results]
        \<and> Ev_interrupt_all \<notin> set evs \<and> Ev_join_all \<notin> set evs"
    using main_completed_shutdown [of r c opts s v s'] by blast
next
  assume a: "UHD_SAFE_MAIN r c opts s = Some (Inl e, s')"
  show "Ev_interrupt_all \<notin> set (new_events s s')" by (rule main_aborted_quiet(2) [OF a])
  show "Ev_join_all \<notin> set (new_events s s')" by (rule main_aborted_quiet(3) [OF a])
next
  assume "tx_thread tx ampl t = Some t'"
  then show "\<exists>t1. t' = send tx [] 0 \<lparr>has_time_spec = False, end_of_burst = True\<rparr> t1"
    by (rule tx_thread_last_send)
next
  assume "fst (interruption_requested tx t)"
  then show "tx_thread tx ampl t
          = Some (send tx [] 0 \<lparr>has_time_spec = False, end_of_burst = True\<rparr>
                    (snd (interruption_requested tx t)))"
    by (rule tx_thread_interrupted)
qed

theorem transmitter_stopped_on_completion_witness:
  "(\<exists>s' results evs. UHD_SAFE_MAIN (sim_radio True 0 0 (100000000, 300000000)) (sim_utils 5 7 35)
          default_options (sim_state 4) = Some (Inr 0, s')
      \<and> new_events (sim_state 4) s' = Ev_create_tx_thread (7/10) # evs
                              @ [Ev_interrupt_all, Ev_join_all, Ev_store_results results]
      \<and> Ev_interrupt_all \<notin> set evs \<and> Ev_join_all \<notin> set evs)
   \<and> tx_thread sim_tx_streamer (7/10) \<lparr>polls_left = 0, sent = []\<rparr>
       = Some \<lparr>polls_left = 0, sent = [(0, True)]\<rparr>
   \<and> tx_thread sim_tx_streamer (7/10) \<lparr>polls_left = 2, sent = []\<rparr>
       = Some \<lparr>polls_left = 0, sent = [(20, False), (20, False), (0, True)]\<rparr>"
proof -
  let ?l = "sim_radio True 0 0 (100000000, 300000000)" and ?c = "sim_utils 5 7 35"
  have o: "\<not> help_flag default_options" "0 < freq_step default_options"
    "tx_wave_ampl default_options = 7/10"
    by (simp_all add: default_options_def)
  have "2 \<le> num_search_steps ?c" by (simp add: sim_utils_def)
  from main_returns [OF o(1) has_cal_sim this tune_ok_sim capture_ok_sim sim_sweep_ends]
  obtain s' where
    run: "UHD_SAFE_MAIN ?l ?c default_options (sim_state 4) = Some (Inr 0, s')" by blast
  note T = transmitter_stopped_on_completion
  have a: "\<exists>results evs. new_events (sim_state 4) s' = Ev_create_tx_thread (7/10) # evs
                              @ [Ev_interrupt_all, Ev_join_all, Ev_store_results results]
      \<and> Ev_interrupt_all \<notin> set evs \<and> Ev_join_all \<notin> set evs"
    using T [THEN conjunct1, THEN mp, OF conjI [OF o(1) run]] unfolding o(3) .
  have i: "fst (interruption_requested sim_tx_streamer \<lparr>polls_left = 0, sent = []\<rparr>)"
    by (simp add: sim_tx_streamer_def)
  have b: "tx_thread sim_tx_streamer (7/10) \<lparr>polls_left = 0, sent = []\<rparr>
       = Some \<lparr>polls_left = 0, sent = [(0, True)]\<rparr>"
    using T [THEN conjunct2, THEN conjunct2, THEN conjunct2, THEN mp, OF i, of "7/10"]
    by (simp add: sim_tx_streamer_def)
  have c: "tx_thread sim_tx_streamer (7/10) \<lparr>polls_left = 2, sent = []\<rparr>
       = Some \<lparr>polls_left = 0, sent = [(20, False), (20, False), (0, True)]\<rparr>"
    by (subst tx_thread_def, subst tx_send_loop.simps, subst tx_send_loop.simps,
        subst tx_send_loop.simps) (simp add: sim_tx_streamer_def Let_def)
  from run a have "\<exists>s' results evs. UHD_SAFE_MAIN ?l ?c default_options (sim_state 4) = Some (Inr 0, s')
      \<and> new_events (sim_state 4) s' = Ev_create_tx_thread (7/10) # evs
                              @ [Ev_interrupt_all, Ev_join_all, Ev_store_results results]
      \<and> Ev_interrupt_all \<notin> set evs \<and> Ev_join_all \<notin> set evs" by blast
  with b c show ?thesis by (intro conjI)
qed

theorem transmitter_stopped_counterexample:
  "exit_value (UHD_SAFE_MAIN (sim_radio False 0 0 (100000000, 300000000)) (sim_utils 5 7 35)
        default_options (sim_state 0)) = Some (Inl Lock_timeout)
   \<and> final_events (UHD_SAFE_MAIN (sim_radio False 0 0 (100000000, 300000000)) (sim_utils 5 7 35)
        default_options (sim_state 0))
       = Some [Ev_create_tx_thread (7/10), Ev_set_rx_freq 150000000]
   \<and> Ev_interrupt_all \<notin> set [Ev_create_tx_thread (7/10), Ev_set_rx_freq 150000000]
   \<and> Ev_join_all \<notin> set [Ev_create_tx_thread (7/10), Ev_set_rx_freq 150000000]"
  by (simp add: main_sim_unlocked exit_value_def final_events_def) (simp add: default_options_def)

subsection \<open>The frequencies of the sweep\<close>

lemma main_tuned_completed:
  assumes "UHD_SAFE_MAIN r c opts s = Some (Inr v, s')" and "\<not> help_flag opts"
  shows "\<exists>m. tuned_freqs (new_events s s')
               = map (\<lambda>i. sweep_value (freq_step opts) i (sweep_start r opts s)) [0..<m]
          \<and> (\<forall>i<m. sweep_value (freq_step opts) i (sweep_start r opts s) < sweep_stop r opts s)
          \<and> \<not> sweep_value (freq_step opts) m (sweep_start r opts s) < sweep_stop r opts s"
proof -
  from main_completed [OF assms] obtain results evs m where
    ne: "new_events s s' = Ev_create_tx_thread (tx_wave_ampl opts) # evs
                                @ [Ev_interrupt_all, Ev_join_all, Ev_store_results results]"
    and tf: "tuned_freqs evs
               = map (\<lambda>i. sweep_value (freq_step opts) i (sweep_start r opts s)) [0..<m]"
    and lt: "\<forall>i<m. sweep_value (freq_step opts) i (sweep_start r opts s) < sweep_stop r opts s"
    and stop: "\<not> sweep_value (freq_step opts) m (sweep_start r opts s) < sweep_stop r opts s"
    by (elim conjE exE)
  from ne tf have "tuned_freqs (new_events s s')
               = map (\<lambda>i. sweep_value (freq_step opts) i (sweep_start r opts s)) [0..<m]"
    by simp
  with lt stop show ?thesis by (intro exI [of _ m] conjI)
qed

lemma main_tuned_aborted:
  assumes "UHD_SAFE_MAIN r c opts s = Some (Inl e, s')"
  shows "\<exists>m. tuned_freqs (new_events s s')
               = map (\<lambda>i. sweep_value (freq_step opts) i (sweep_start r opts s)) [0..<m]
          \<and> (\<forall>i<m. sweep_value (freq_step opts) i (sweep_start r opts s) < sweep_stop r opts s)"
proof -
  from main_aborted [OF assms] consider
    (cal) "s' = s"
  | (loop) evs m where "new_events s s' = Ev_create_tx_thread (tx_wave_ampl opts) # evs"
      "tuned_freqs evs
         = map (\<lambda>i. sweep_value (freq_step opts) i (sweep_start r opts s)) [0..<Suc m]"
      "\<forall>i<Suc m. sweep_value (freq_step opts) i (sweep_start r opts s) < sweep_stop r opts s"
    by (elim disjE conjE exE) blast+
  then show ?thesis
  proof cases
    case cal
    then have "tuned_freqs (new_events s s')
               = map (\<lambda>i. sweep_value (freq_step opts) i (sweep_start r opts s)) [0..<0]
        \<and> (\<forall>i<0. sweep_value (freq_step opts) i (sweep_start r opts s) < sweep_stop r opts s)"
      by (simp add: new_events_def)
    then show ?thesis by (rule exI)
  next
    case loop
    from loop(1,2) have "tuned_freqs (new_events s s')
         = map (\<lambda>i. sweep_value (freq_step opts) i (sweep_start r opts s)) [0..<Suc m]"
      by simp
    with loop(3) show ?thesis by (intro exI [of _ "Suc m"] conjI)
  qed
qed

text \<open>
  Claim C5, as amended. The loop variable starts at \<open>start + guard\<close> and grows by the step,
  every sum rounded to double, with a guard of 50 MHz (\<open>sweep_value step i x\<close> is its value
  after \<open>i\<close> passes). A sweep that completes has tuned to exactly the successive values that
  come before the first one not strictly below \<open>stop - guard\<close>, in this order; a sweep that an
  error aborts to the first few of them. As long as the start, the step and the sums are
  integers below \<open>2^53\<close> the \<open>i\<close>-th value is \<open>start + guard + i * step\<close>. With the range
  100 MHz to 200 MHz there is no candidate: both \<open>start + guard\<close> and \<open>stop - guard\<close> are
  150 MHz, which is not strictly below itself. And for every range no wider than twice the
  guard the program tunes to no frequency, stores an empty table and returns \<open>0\<close>.
\<close>

theorem sweep_visits_candidates:
  "(\<not> help_flag opts \<and> UHD_SAFE_MAIN r c opts s = Some (Inr v, s') \<longrightarrow>
      (\<exists>m. tuned_freqs (new_events s s')
               = map (\<lambda>i. sweep_value (freq_step opts) i (sweep_start r opts s)) [0..<m]
          \<and> (\<forall>i<m. sweep_value (freq_step opts) i (sweep_start r opts s) < sweep_stop r opts s)
          \<and> \<not> sweep_value (freq_step opts) m (sweep_start r opts s) < sweep_stop r opts s))
   \<and> (UHD_SAFE_MAIN r c opts s = Some (Inl e, s') \<longrightarrow>
      (\<exists>m. tuned_freqs (new_events s s')
               = map (\<lambda>i. sweep_value (freq_step opts) i (sweep_start r opts s)) [0..<m]
          \<and> (\<forall>i<m. sweep_value (freq_step opts) i (sweep_start r opts s) < sweep_stop r opts s)))
   \<and> sweep_value step 0 x = x
   \<and> sweep_value step (Suc i) x = double_add (sweep_value step i x) step
   \<and> (0 \<le> a \<and> 0 \<le> b \<and> a + int i * b < 2 ^ 53 \<longrightarrow>
        sweep_value (of_int b) i (of_int a) = of_int (a + int i * b))
   \<and> double_add 100000000 50000000 = 150000000
   \<and> double_add 200000000 (- 50000000) = 150000000
   \<and> (\<not> help_flag opts \<and> has_cal_antennas r s
        \<and> snd (get_rx_freq_range r (configure r opts (dev s)))
            - fst (get_rx_freq_range r (configure r opts (dev s))) \<le> 2 * 50000000 \<longrightarrow>
        (\<exists>s'. UHD_SAFE_MAIN r c opts s = Some (Inr 0, s')
           \<and> new_events s s' = [Ev_create_tx_thread (tx_wave_ampl opts),
                                  Ev_interrupt_all, Ev_join_all, Ev_store_results []]))"
proof (intro conjI impI)
  assume "\<not> help_flag opts \<and> UHD_SAFE_MAIN r c opts s = Some (Inr v, s')"
  then show "\<exists>m. tuned_freqs (new_events s s')
               = map (\<lambda>i. sweep_value (freq_step opts) i (sweep_start r opts s)) [0..<m]
          \<and> (\<forall>i<m. sweep_value (freq_step opts) i (sweep_start r opts s) < sweep_stop r opts s)
          \<and> \<not> sweep_value (freq_step opts) m (sweep_start r opts s) < sweep_stop r opts s"
    using main_tuned_completed [of r c opts s v s'] by (elim conjE) simp
next
  assume "UHD_SAFE_MAIN r c opts s = Some (Inl e, s')"
  then show "\<exists>m. tuned_freqs (new_events s s')
               = map (\<lambda>i. sweep_value (freq_step opts) i (sweep_start r opts s)) [0..<m]
          \<and> (\<forall>i<m. sweep_value (freq_step opts) i (sweep_start r opts s) < sweep_stop r opts s)"
    by (rule main_tuned_aborted)
next
  show "sweep_value step 0 x = x" by simp
next
  show "sweep_value step (Suc i) x = double_add (sweep_value step i x) step"
    by (rule sweep_value_Suc)
next
  assume "0 \<le> a \<and> 0 \<le> b \<and> a + int i * b < 2 ^ 53"
  then show "sweep_value (of_int b) i (of_int a) = of_int (a + int i * b)"
    using sweep_value_of_int [of a b i] by (elim conjE) simp
next
  show "double_add 100000000 50000000 = 150000000" by (rule double_sums(1))
next
  show "double_add 200000000 (- 50000000) = 150000000" by (rule double_sums(3))
next
  assume "\<not> help_flag opts \<and> has_cal_antennas r s
        \<and> snd (get_rx_freq_range r (configure r opts (dev s)))
            - fst (get_rx_freq_range r (configure r opts (dev s))) \<le> 2 * 50000000"
  then show "\<exists>s'. UHD_SAFE_MAIN r c opts s = Some (Inr 0, s')
           \<and> new_events s s' = [Ev_create_tx_thread (tx_wave_ampl opts),
                                  Ev_interrupt_all, Ev_join_all, Ev_store_results []]"
    using main_narrow_range [of opts r s c] by (elim conjE) simp
qed

lemma upt_10: "[0..<10] = [0, 1, 2, 3, 4, 5, 6, 7, 8, 9::nat]"
  by (simp add: upt_rec)

lemma tenth_step: "round_double (1/10) = 3602879701896397/36028797018963968"
  by (simp add: round_double_def binary_exponent.simps round_even_def)

lemma tenth_sums:
  "double_add (- 50000000) 50000000 = 0"
  "double_add 50000001 (- 50000000) = 1"
  using double_add_of_int [of "- 50000000" 50000000] double_add_of_int [of 50000001 "- 50000000"]
  by simp_all

lemma tenth_values:
  "list_all (\<lambda>i. sweep_value (3602879701896397/36028797018963968) i 0 < 1) [0..<11]"
  "\<not> sweep_value (3602879701896397/36028797018963968) 11 0 < 1"
  by (simp_all add: upt_rec numeral_eq_Suc double_add_def round_double_def binary_exponent.simps
      round_even_def)

theorem sweep_visits_candidates_witness:
  "(\<exists>s'. UHD_SAFE_MAIN (sim_radio True 0 0 (100000000, 300000000)) (sim_utils 5 7 35)
            default_options (sim_state 0) = Some (Inr 0, s')
        \<and> tuned_freqs (new_events (sim_state 0) s')
            = [150000000, 160000000, 170000000, 180000000, 190000000,
               200000000, 210000000, 220000000, 230000000, 240000000])
   \<and> (\<exists>s'. UHD_SAFE_MAIN (sim_radio True 0 0 (100000000, 200000000)) (sim_utils 5 7 35)
            default_options (sim_state 0) = Some (Inr 0, s')
        \<and> new_events (sim_state 0) s' = [Ev_create_tx_thread (7/10),
                                  Ev_interrupt_all, Ev_join_all, Ev_store_results []])
   \<and> (\<exists>s'. UHD_SAFE_MAIN (sim_radio False 0 0 (100000000, 300000000)) (sim_utils 5 7 35)
            default_options (sim_state 0) = Some (Inl Lock_timeout, s')
        \<and> tuned_freqs (new_events (sim_state 0) s') = [150000000])
   \<and> (\<exists>s'. UHD_SAFE_MAIN (sim_radio True 0 0 (- 50000000, 50000001)) (sim_utils 5 7 35)
            (default_options\<lparr>freq_step := round_double (1/10)\<rparr>) (sim_state 0) = Some (Inr 0, s')
        \<and> length (tuned_freqs (new_events (sim_state 0) s')) = 11)
   \<and> sweep_value 10000000 3 150000000 = 180000000"
proof (intro conjI)
  let ?r = "sim_radio True 0 0 (100000000, 300000000)" and ?c = "sim_utils 5 7 35"
  note T = sweep_visits_candidates
  have o: "\<not> help_flag default_options" "freq_step default_options = 10000000"
    "tx_wave_ampl default_options = 7/10"
    by (simp_all add: default_options_def)
  have n: "2 \<le> num_search_steps ?c" by (simp add: sim_utils_def)
  from main_returns [OF o(1) has_cal_sim n tune_ok_sim capture_ok_sim sim_sweep_ends]
  obtain s' where run: "UHD_SAFE_MAIN ?r ?c default_options (sim_state 0) = Some (Inr 0, s')"
    by blast
  from T [THEN conjunct1, THEN mp, OF conjI [OF o(1) run]] obtain m where
    tf: "tuned_freqs (new_events (sim_state 0) s')
           = map (\<lambda>i. sweep_value 10000000 i 150000000) [0..<m]"
    and lt: "\<forall>i<m. sweep_value 10000000 i 150000000 < 250000000"
    and stop: "\<not> sweep_value 10000000 m 150000000 < 250000000"
    unfolding sim_sweep_range double_sums o(2) by (elim exE conjE)
  have "m \<le> 10"
  proof (rule ccontr)
    assume "\<not> m \<le> 10"
    then have "10 < m" by simp
    with lt have "sweep_value 10000000 10 150000000 < 250000000" by blast
    then show False by (simp add: sim_sweep_value)
  qed
  moreover from this stop have "10 \<le> m" by (simp add: sim_sweep_value)
  ultimately have m: "m = 10" by simp
  have "tuned_freqs (new_events (sim_state 0) s')
            = [150000000, 160000000, 170000000, 180000000, 190000000,
               200000000, 210000000, 220000000, 230000000, 240000000]"
    unfolding tf m upt_10 by (simp add: sim_sweep_value double_sums)
  with run show "\<exists>s'. UHD_SAFE_MAIN ?r ?c default_options (sim_state 0) = Some (Inr 0, s')
        \<and> tuned_freqs (new_events (sim_state 0) s')
            = [150000000, 160000000, 170000000, 180000000, 190000000,
               200000000, 210000000, 220000000, 230000000, 240000000]" by blast
  let ?n = "sim_radio True 0 0 (100000000, 200000000)"
  have "snd (get_rx_freq_range ?n (configure ?n default_options (dev (sim_state 0))))
            - fst (get_rx_freq_range ?n (configure ?n default_options (dev (sim_state 0))))
          \<le> 2 * 50000000" by (simp add: sim_radio_def)
  from T [THEN conjunct2, THEN conjunct2, THEN conjunct2, THEN conjunct2, THEN conjunct2,
      THEN conjunct2, THEN conjunct2, THEN mp, OF conjI [OF o(1) conjI [OF has_cal_sim this]]]
  show "\<exists>s'. UHD_SAFE_MAIN ?n ?c default_options (sim_state 0) = Some (Inr 0, s')
        \<and> new_events (sim_state 0) s' = [Ev_create_tx_thread (7/10),
                                  Ev_interrupt_all, Ev_join_all, Ev_store_results []]"
    unfolding o(3) .
  let ?u = "sim_radio False 0 0 (100000000, 300000000)"
  let ?s2 = "\<lparr>dev = \<lparr>sim_time = 230000, sim_rx_freq = 150000000\<rparr>,
           buff = replicate (nsamps default_options) (0::complex),
           trace = [Ev_create_tx_thread (tx_wave_ampl default_options), Ev_set_rx_freq 150000000]\<rparr>"
  have main: "UHD_SAFE_MAIN ?u ?c default_options (sim_state 0) = Some (Inl Lock_timeout, ?s2)"
    by (simp add: main_sim_unlocked o(1))
  from T [THEN conjunct2, THEN conjunct1, THEN mp, OF main] obtain k where
    "tuned_freqs (new_events (sim_state 0) ?s2)
       = map (\<lambda>i. sweep_value (freq_step default_options) i
                (sweep_start ?u default_options (sim_state 0))) [0..<k]" by (elim exE conjE)
  have "tuned_freqs (new_events (sim_state 0) ?s2) = [150000000]"
    by (simp add: new_events_def sim_state_def)
  with main show "\<exists>s'. UHD_SAFE_MAIN ?u ?c default_options (sim_state 0)
          = Some (Inl Lock_timeout, s')
        \<and> tuned_freqs (new_events (sim_state 0) s') = [150000000]" by blast
  let ?t = "sim_radio True 0 0 (- 50000000, 50000001)"
  let ?o = "default_options\<lparr>freq_step := round_double (1/10)\<rparr>"
  let ?step = "3602879701896397/36028797018963968 :: real"
  have p: "\<not> help_flag ?o" "freq_step ?o = ?step"
    by (simp_all add: default_options_def tenth_step)
  have ends: "\<not> sweep_value (freq_step ?o) 11 (sweep_start ?t ?o (sim_state 0))
                 < sweep_stop ?t ?o (sim_state 0)"
    unfolding p(2) sim_sweep_range tenth_sums by (rule tenth_values(2))
  from main_returns [OF p(1) has_cal_sim n tune_ok_sim capture_ok_sim ends]
  obtain s2 where run2: "UHD_SAFE_MAIN ?t ?c ?o (sim_state 0) = Some (Inr 0, s2)" by blast
  from T [THEN conjunct1, THEN mp, OF conjI [OF p(1) run2]] obtain m2 where
    tf2: "tuned_freqs (new_events (sim_state 0) s2) = map (\<lambda>i. sweep_value ?step i 0) [0..<m2]"
    and lt2: "\<forall>i<m2. sweep_value ?step i 0 < 1"
    and stop2: "\<not> sweep_value ?step m2 0 < 1"
    unfolding sim_sweep_range tenth_sums p(2) by (elim exE conjE)
  have "m2 \<le> 11"
  proof (rule ccontr)
    assume "\<not> m2 \<le> 11"
    then have "11 < m2" by simp
    with lt2 have "sweep_value ?step 11 0 < 1" by blast
    with tenth_values(2) show False by simp
  qed
  moreover have "11 \<le> m2"
  proof (rule ccontr)
    assume "\<not> 11 \<le> m2"
    then have "m2 \<in> set [0..<11]" by simp
    with tenth_values(1) have "sweep_value ?step m2 0 < 1" unfolding list_all_iff by blast
    with stop2 show False by simp
  qed
  ultimately have "m2 = 11" by simp
  with tf2 have "length (tuned_freqs (new_events (sim_state 0) s2)) = 11" by simp
  with run2 show "\<exists>s'. UHD_SAFE_MAIN ?t ?c ?o (sim_state 0) = Some (Inr 0, s')
        \<and> length (tuned_freqs (new_events (sim_state 0) s')) = 11" by blast
  from T [where a = 150000000 and b = 10000000 and i = 3, THEN conjunct2, THEN conjunct2,
      THEN conjunct2, THEN conjunct2, THEN conjunct1, THEN mp]
  show "sweep_value 10000000 3 150000000 = 180000000" by simp
qed

theorem sweep_visits_candidates_counterexample:
  "exit_value (UHD_SAFE_MAIN (sim_radio True 0 0 (100000000, 200000000)) (sim_utils 5 7 35)
            (default_options\<lparr>nsamps := 4\<rparr>) (sim_state 0)) = Some (Inr 0)
   \<and> final_events (UHD_SAFE_MAIN (sim_radio True 0 0 (100000000, 200000000)) (sim_utils 5 7 35)
            (default_options\<lparr>nsamps := 4\<rparr>) (sim_state 0))
       = Some [Ev_create_tx_thread (7/10), Ev_interrupt_all, Ev_join_all, Ev_store_results []]
   \<and> tuned_freqs [Ev_create_tx_thread (7/10), Ev_interrupt_all, Ev_join_all, Ev_store_results []]
       \<noteq> [150000000]
   \<and> freq_step default_options = 10000000"
proof -
  let ?n = "sim_radio True 0 0 (100000000, 200000000)"
  let ?o = "default_options\<lparr>nsamps := 4\<rparr>"
  have o: "\<not> help_flag ?o" "tx_wave_ampl ?o = 7/10" by (simp_all add: default_options_def)
  have "\<not> sweep_start ?n ?o (sim_state 0) < sweep_stop ?n ?o (sim_state 0)"
    by (simp add: sim_sweep_range double_sums)
  from main_empty_sweep [OF o(1) has_cal_sim this, of "sim_utils 5 7 35"] show ?thesis
    by (simp add: exit_value_def final_events_def o(2) sim_state_def) (simp add: default_options_def)
qed

subsection \<open>After the search at one frequency\<close>

lemma rx_lo_loop_next:
  assumes "rx_lo_loop r c opts x range_stop results s = Some y"
    and "x < double_add range_stop (- 50000000)"
  shows "\<exists>evs. trace (snd y) = trace s @ Ev_set_rx_freq x # evs"
proof -
  from assms obtain res1 s1 where body: "sweep_body r c opts x results s = Some (res1, s1)"
    by (subst (asm) rx_lo_loop.simps) (auto split: option.splits)
  from sweep_body_events [OF body] obtain e1 where
    e1: "trace s1 = trace s @ Ev_set_rx_freq x # e1" by blast
  show ?thesis
  proof (cases res1)
    case (Inl e)
    with assms body have "y = (Inl e, s1)" by (subst (asm) rx_lo_loop.simps) simp
    with e1 show ?thesis by simp
  next
    case (Inr results1)
    with assms body have
      "rx_lo_loop r c opts (double_add x (freq_step opts)) range_stop results1 s1 = Some y"
      by (subst (asm) rx_lo_loop.simps) simp
    from rx_lo_loop_post [OF this] obtain e2 where "trace (snd y) = trace s1 @ e2"
      by (elim exE conjE)
    with e1 show ?thesis by simp
  qed
qed

lemma rx_lo_loop_grows:
  assumes "rx_lo_loop r c opts x range_stop results s = Some (Inr results', s')"
  shows "\<exists>more. results' = results @ more"
proof -
  from rx_lo_loop_post [OF assms] obtain evs m where
    "\<forall>res. fst (Inr results' :: error + result_t list, s') = Inr res \<longrightarrow>
                \<not> sweep_value (freq_step opts) m x < double_add range_stop (- 50000000)
                \<and> (\<exists>more. res = results @ more \<and> list_all (\<lambda>e. 30 < sup_dB e) more)"
    by (elim exE conjE)
  then show ?thesis by auto
qed

text \<open>
  Claim C6. At a swept frequency whose tuning and search succeed, the body of the sweep ends
  without error and appends the entry (tuned frequency, real and imaginary part of the best
  correction, best suppression) to the results if the best suppression is greater than 30, and
  leaves the results as they are otherwise. In both cases the loop goes on from the next
  frequency with these results: if the next frequency is not below the bound the loop ends
  with them, without error; if it is, the next step of every run that returns is the tuning
  to the next frequency; and on a device on which every tuning locks and no capture fails the
  loop, once its variable reaches the bound, returns without error results that begin with
  them.
\<close>

theorem result_kept_iff_above_threshold:
  assumes "rx_lo_i < double_add range_stop (- 50000000)"
    and "tune_rx_and_tx r rx_lo_i (tx_offset opts) s = Some (Inr rx_lo, s1)"
    and "search_iters r c (num_search_iters c) init_search s1 = Some (Inr st, s2)"
  shows "sweep_body r c opts rx_lo_i results s
           = Some (Inr (if 30 < best_suppression st
                        then results @ [\<lparr>freq = rx_lo, real_corr = Re (best_correction st),
                                         imag_corr = Im (best_correction st),
                                         sup_dB = best_suppression st\<rparr>]
                        else results), s2)
       \<and> rx_lo_loop r c opts rx_lo_i range_stop results s
           = rx_lo_loop r c opts (double_add rx_lo_i (freq_step opts)) range_stop
               (if 30 < best_suppression st
                then results @ [\<lparr>freq = rx_lo, real_corr = Re (best_correction st),
                                 imag_corr = Im (best_correction st),
                                 sup_dB = best_suppression st\<rparr>]
                else results) s2
       \<and> (\<not> double_add rx_lo_i (freq_step opts) < double_add range_stop (- 50000000) \<longrightarrow>
            rx_lo_loop r c opts rx_lo_i range_stop results s
              = Some (Inr (if 30 < best_suppression st
                           then results @ [\<lparr>freq = rx_lo, real_corr = Re (best_correction st),
                                            imag_corr = Im (best_correction st),
                                            sup_dB = best_suppression st\<rparr>]
                           else results), s2))
       \<and> (double_add rx_lo_i (freq_step opts) < double_add range_stop (- 50000000) \<longrightarrow>
            (\<forall>y. rx_lo_loop r c opts rx_lo_i range_stop results s = Some y \<longrightarrow>
               (\<exists>evs. trace (snd y)
                  = trace s2 @ Ev_set_rx_freq (double_add rx_lo_i (freq_step opts)) # evs)))
       \<and> (tune_ok r \<and> capture_ok r \<and> 2 \<le> num_search_steps c
            \<and> \<not> sweep_value (freq_step opts) N rx_lo_i < double_add range_stop (- 50000000) \<longrightarrow>
            (\<exists>more s'. rx_lo_loop r c opts rx_lo_i range_stop results s
               = Some (Inr ((if 30 < best_suppression st
                             then results @ [\<lparr>freq = rx_lo, real_corr = Re (best_correction st),
                                              imag_corr = Im (best_correction st),
                                              sup_dB = best_suppression st\<rparr>]
                             else results) @ more), s')))"
proof -
  let ?kept = "if 30 < best_suppression st
               then results @ [\<lparr>freq = rx_lo, real_corr = Re (best_correction st),
                                imag_corr = Im (best_correction st),
                                sup_dB = best_suppression st\<rparr>]
               else results"
  let ?next = "double_add rx_lo_i (freq_step opts)"
  let ?bound = "double_add range_stop (- 50000000)"
  have k: "keep_result rx_lo st results = ?kept" by (simp add: keep_result_def)
  have body: "sweep_body r c opts rx_lo_i results s = Some (Inr ?kept, s2)"
    using assms(2,3) unfolding k [symmetric] by (simp add: sweep_body_def)
  have loop: "rx_lo_loop r c opts rx_lo_i range_stop results s
           = rx_lo_loop r c opts ?next range_stop ?kept s2"
    using assms(1) body by (subst rx_lo_loop.simps) simp
  have last: "rx_lo_loop r c opts rx_lo_i range_stop results s = Some (Inr ?kept, s2)"
    if "\<not> ?next < ?bound"
    unfolding loop using that by (subst rx_lo_loop.simps) simp
  have nxt: "\<exists>evs. trace (snd y) = trace s2 @ Ev_set_rx_freq ?next # evs"
    if "?next < ?bound" and "rx_lo_loop r c opts rx_lo_i range_stop results s = Some y" for y
    using rx_lo_loop_next [OF that(2) [unfolded loop] that(1)] .
  have total: "\<exists>more s'. rx_lo_loop r c opts rx_lo_i range_stop results s
               = Some (Inr (?kept @ more), s')"
    if "tune_ok r \<and> capture_ok r \<and> 2 \<le> num_search_steps c
            \<and> \<not> sweep_value (freq_step opts) N rx_lo_i < ?bound"
  proof -
    from that have h: "tune_ok r" "capture_ok r" "2 \<le> num_search_steps c"
      "\<not> sweep_value (freq_step opts) N rx_lo_i < ?bound" by simp_all
    from rx_lo_loop_returns [OF h, where results = results and s = s] obtain results' s' where
      run: "rx_lo_loop r c opts rx_lo_i range_stop results s = Some (Inr results', s')" by blast
    from rx_lo_loop_grows [OF run [unfolded loop]] obtain more where
      "results' = ?kept @ more" ..
    with run show ?thesis by blast
  qed
  from body loop last nxt total show ?thesis by (intro conjI impI allI)
qed

theorem result_kept_iff_above_threshold_witness:
  "(\<exists>st s2 more s' evs.
        search_iters (sim_radio True 0 0 (100000000, 300000000)) (sim_utils 5 7 35) 7 init_search
          ((sim_state 10000)\<lparr>dev := \<lparr>sim_time = 110000, sim_rx_freq = 150000000\<rparr>,
                              trace := [Ev_set_rx_freq 150000000]\<rparr>) = Some (Inr st, s2)
      \<and> sweep_body (sim_radio True 0 0 (100000000, 300000000)) (sim_utils 5 7 35) default_options
          150000000 [] (sim_state 10000)
        = Some (Inr [\<lparr>freq = 150000000, real_corr = Re (best_correction st),
                      imag_corr = Im (best_correction st), sup_dB = 35\<rparr>], s2)
      \<and> rx_lo_loop (sim_radio True 0 0 (100000000, 300000000)) (sim_utils 5 7 35) default_options
          150000000 300000000 [] (sim_state 10000)
        = Some (Inr (\<lparr>freq = 150000000, real_corr = Re (best_correction st),
                      imag_corr = Im (best_correction st), sup_dB = 35\<rparr> # more), s')
      \<and> trace s' = trace s2 @ Ev_set_rx_freq 160000000 # evs)
   \<and> (\<exists>st s2 more s' evs.
        search_iters (sim_radio True 0 0 (100000000, 300000000)) (sim_utils 5 7 10) 7 init_search
          ((sim_state 10000)\<lparr>dev := \<lparr>sim_time = 110000, sim_rx_freq = 150000000\<rparr>,
                              trace := [Ev_set_rx_freq 150000000]\<rparr>) = Some (Inr st, s2)
      \<and> sweep_body (sim_radio True 0 0 (100000000, 300000000)) (sim_utils 5 7 10) default_options
          150000000 [] (sim_state 10000)
        = Some (Inr [], s2)
      \<and> rx_lo_loop (sim_radio True 0 0 (100000000, 300000000)) (sim_utils 5 7 10) default_options
          150000000 300000000 [] (sim_state 10000)
        = Some (Inr more, s')
      \<and> trace s' = trace s2 @ Ev_set_rx_freq 160000000 # evs)
   \<and> (\<exists>s2. rx_lo_loop (sim_radio True 0 0 (100000000, 300000000)) (sim_utils 5 7 10)
          default_options 240000000 300000000 [] (sim_state 10000)
        = Some (Inr [], s2))"
proof -
  let ?r = "sim_radio True 0 0 (100000000, 300000000)"
  let ?s1 = "(sim_state 10000)\<lparr>dev := \<lparr>sim_time = 110000, sim_rx_freq = 150000000\<rparr>,
                            trace := [Ev_set_rx_freq 150000000]\<rparr>"
  have tune: "tune_rx_and_tx ?r 150000000 (tx_offset default_options) (sim_state 10000)
                = Some (Inr 150000000, ?s1)"
    by (simp add: tune_sim_locked sim_state_def sim_dev0_def)
  have lt: "(150000000::real) < double_add 300000000 (- 50000000)" by (simp add: double_sums)
  have step: "freq_step default_options = 10000000" by (simp add: default_options_def)
  have next_lt: "double_add 150000000 (freq_step default_options)
      < double_add 300000000 (- 50000000)" by (simp add: step double_sums)
  have ends: "\<not> sweep_value (freq_step default_options) 10 150000000
      < double_add 300000000 (- 50000000)" by (simp add: step double_sums sim_sweep_value)
  have part: "\<exists>st s2 more s' evs.
        search_iters ?r (sim_utils 5 7 v) 7 init_search ?s1 = Some (Inr st, s2)
      \<and> sweep_body ?r (sim_utils 5 7 v) default_options 150000000 [] (sim_state 10000)
        = Some (Inr (if 30 < v then [\<lparr>freq = 150000000, real_corr = Re (best_correction st),
                      imag_corr = Im (best_correction st), sup_dB = v\<rparr>] else []), s2)
      \<and> rx_lo_loop ?r (sim_utils 5 7 v) default_options 150000000 300000000 []
          (sim_state 10000)
        = Some (Inr ((if 30 < v then [\<lparr>freq = 150000000, real_corr = Re (best_correction st),
                      imag_corr = Im (best_correction st), sup_dB = v\<rparr>] else []) @ more), s')
      \<and> trace s' = trace s2 @ Ev_set_rx_freq 160000000 # evs"
    if "0 < v" for v
  proof -
    let ?c = "sim_utils 5 7 v"
    from sim_search_constant [OF that, of 7 5 "(100000000, 300000000)" ?s1] obtain st s2 where
      run: "search_iters ?r ?c 7 init_search ?s1 = Some (Inr st, s2)"
      and b: "best_of st = (- (3/10), - (3/10), rcis (7/10) (- (3/10) * tau ?c), v)" by auto
    from b have bs: "best_suppression st = v" by (simp add: best_of_def)
    have iters: "num_search_iters ?c = 7" by (simp add: sim_utils_def)
    have n: "2 \<le> num_search_steps ?c" by (simp add: sim_utils_def)
    note R = result_kept_iff_above_threshold [where results = "[]" and N = 10, OF lt tune,
        of ?c st s2, unfolded iters, OF run, unfolded bs]
    let ?kept = "if 30 < v then [] @ [\<lparr>freq = 150000000, real_corr = Re (best_correction st),
                      imag_corr = Im (best_correction st), sup_dB = v\<rparr>] else []"
    have body: "sweep_body ?r ?c default_options 150000000 [] (sim_state 10000)
        = Some (Inr ?kept, s2)" by (rule R [THEN conjunct1])
    have g: "tune_ok ?r \<and> capture_ok ?r \<and> 2 \<le> num_search_steps ?c
            \<and> \<not> sweep_value (freq_step default_options) 10 150000000
                 < double_add 300000000 (- 50000000)"
      using tune_ok_sim capture_ok_sim n ends by (intro conjI)
    from R [THEN conjunct2, THEN conjunct2, THEN conjunct2, THEN conjunct2, THEN mp, OF g]
    obtain more s' where
      loop: "rx_lo_loop ?r ?c default_options 150000000 300000000 [] (sim_state 10000)
        = Some (Inr (?kept @ more), s')" by (elim exE)
    from R [THEN conjunct2, THEN conjunct2, THEN conjunct2, THEN conjunct1, THEN mp,
        OF next_lt, THEN spec, THEN mp, OF loop]
    obtain evs where
      "trace s' = trace s2 @ Ev_set_rx_freq (double_add 150000000 (freq_step default_options)) # evs"
      by auto
    then have tr: "trace s' = trace s2 @ Ev_set_rx_freq 160000000 # evs"
      by (simp add: step double_sums)
    from run body loop tr show ?thesis by (cases "30 < v") auto
  qed
  have last: "\<exists>s2. rx_lo_loop ?r (sim_utils 5 7 10) default_options 240000000 300000000 []
          (sim_state 10000) = Some (Inr [], s2)"
  proof -
    let ?c = "sim_utils 5 7 10"
    let ?t1 = "(sim_state 10000)\<lparr>dev := \<lparr>sim_time = 110000, sim_rx_freq = 240000000\<rparr>,
                            trace := [Ev_set_rx_freq 240000000]\<rparr>"
    have tune2: "tune_rx_and_tx ?r 240000000 (tx_offset default_options) (sim_state 10000)
                = Some (Inr 240000000, ?t1)"
      by (simp add: tune_sim_locked sim_state_def sim_dev0_def)
    have lt2: "(240000000::real) < double_add 300000000 (- 50000000)" by (simp add: double_sums)
    have "(0::real) < 10" by simp
    from sim_search_constant [OF this, of 7 5 "(100000000, 300000000)" ?t1] obtain st s2 where
      run: "search_iters ?r ?c 7 init_search ?t1 = Some (Inr st, s2)"
      and b: "best_of st = (- (3/10), - (3/10), rcis (7/10) (- (3/10) * tau ?c), 10)" by auto
    from b have bs: "best_suppression st = 10" by (simp add: best_of_def)
    have iters: "num_search_iters ?c = 7" by (simp add: sim_utils_def)
    have stop: "\<not> double_add 240000000 (freq_step default_options)
        < double_add 300000000 (- 50000000)" by (simp add: step double_sums)
    note R = result_kept_iff_above_threshold [where results = "[]" and N = 0, OF lt2 tune2,
        of ?c st s2, unfolded iters, OF run, unfolded bs]
    from R [THEN conjunct2, THEN conjunct2, THEN conjunct1, THEN mp, OF stop]
    have "rx_lo_loop ?r ?c default_options 240000000 300000000 [] (sim_state 10000)
        = Some (Inr [], s2)" by simp
    then show ?thesis ..
  qed
  from part [of 35] part [of 10] last show ?thesis by simp
qed

subsection \<open>The wait for the LOs\<close>

lemma list_all_upt_Suc:
  "list_all P [0..<Suc n] \<longleftrightarrow> P 0 \<and> list_all (\<lambda>i. P (Suc i)) [0..<n]"
proof -
  have "[0..<Suc n] = 0 # map Suc [0..<n]"
    by (simp add: upt_conv_Cons map_Suc_upt del: upt_Suc)
  then have "list_all P [0..<Suc n] \<longleftrightarrow> list_all P (0 # map Suc [0..<n])" by (simp only:)
  also have "\<dots> \<longleftrightarrow> P 0 \<and> list_all (\<lambda>i. P (Suc i)) [0..<n]"
    by (simp only: list.pred_inject list.pred_map o_def)
  finally show ?thesis .
qed

lemma poll_time_Suc: "poll_time r (Suc i) d = poll_time r i (snd (get_system_time r d))"
  by (simp add: poll_time_def)

lemma times_out_at_0:
  "times_out_at r start d 0 \<longleftrightarrow> \<not> lo_locked r d \<and> start + 100000 < fst (get_system_time r d)"
  by (simp add: times_out_at_def poll_time_def)

lemma times_out_at_Suc:
  "times_out_at r start d (Suc k) \<longleftrightarrow>
     \<not> lo_locked r d \<and> fst (get_system_time r d) \<le> start + 100000
     \<and> times_out_at r start (snd (get_system_time r d)) k"
proof -
  have a: "list_all (\<lambda>i. \<not> lo_locked r (poll_dev r i d)) [0..<Suc (Suc k)] \<longleftrightarrow>
      \<not> lo_locked r d
      \<and> list_all (\<lambda>i. \<not> lo_locked r (poll_dev r i (snd (get_system_time r d)))) [0..<Suc k]"
    by (subst list_all_upt_Suc) simp
  have b: "list_all (\<lambda>i. poll_time r i d \<le> start + 100000) [0..<Suc k] \<longleftrightarrow>
      fst (get_system_time r d) \<le> start + 100000
      \<and> list_all (\<lambda>i. poll_time r i (snd (get_system_time r d)) \<le> start + 100000) [0..<k]"
    by (subst list_all_upt_Suc) (simp add: poll_time_Suc, simp add: poll_time_def)
  show ?thesis unfolding times_out_at_def a b poll_time_Suc by blast
qed

lemma locks_at_0: "locks_at r start d 0 \<longleftrightarrow> lo_locked r d"
  by (simp add: locks_at_def)

lemma locks_at_Suc:
  "locks_at r start d (Suc k) \<longleftrightarrow>
     \<not> lo_locked r d \<and> fst (get_system_time r d) \<le> start + 100000
     \<and> locks_at r start (snd (get_system_time r d)) k"
proof -
  have a: "list_all (\<lambda>i. \<not> lo_locked r (poll_dev r i d) \<and> poll_time r i d \<le> start + 100000)
             [0..<Suc k] \<longleftrightarrow>
      (\<not> lo_locked r d \<and> fst (get_system_time r d) \<le> start + 100000)
      \<and> list_all (\<lambda>i. \<not> lo_locked r (poll_dev r i (snd (get_system_time r d)))
                      \<and> poll_time r i (snd (get_system_time r d)) \<le> start + 100000) [0..<k]"
    by (subst list_all_upt_Suc) (simp add: poll_time_Suc, simp add: poll_time_def)
  show ?thesis unfolding locks_at_def a by simp
qed

lemma wait_times_out:
  assumes "times_out_at r start (dev s) k"
  shows "wait_lo_locked r start s
           = Some (Inl Lock_timeout, s\<lparr>dev := poll_dev r (Suc k) (dev s)\<rparr>)"
  using assms
proof (induction k arbitrary: s)
  case 0
  then show ?case
    by (subst wait_lo_locked.simps) (auto simp: times_out_at_0 lo_locked_def split_beta)
next
  case (Suc k)
  from Suc.prems have u: "\<not> lo_locked r (dev s)"
    and t: "fst (get_system_time r (dev s)) \<le> start + 100000"
    and rest: "times_out_at r start (snd (get_system_time r (dev s))) k"
    unfolding times_out_at_Suc by simp_all
  let ?s' = "s\<lparr>dev := snd (get_system_time r (dev s))\<rparr>"
  from rest have "times_out_at r start (dev ?s') k" by simp
  from Suc.IH [OF this] have "wait_lo_locked r start ?s'
      = Some (Inl Lock_timeout, s\<lparr>dev := poll_dev r (Suc (Suc k)) (dev s)\<rparr>)" by simp
  with u t show ?case
    by (subst wait_lo_locked.simps) (auto simp: lo_locked_def split_beta)
qed

lemma wait_locks:
  assumes "locks_at r start (dev s) k"
  shows "wait_lo_locked r start s = Some (Inr (), s\<lparr>dev := poll_dev r k (dev s)\<rparr>)"
  using assms
proof (induction k arbitrary: s)
  case 0
  then show ?case
    by (subst wait_lo_locked.simps) (auto simp: locks_at_0 lo_locked_def)
next
  case (Suc k)
  from Suc.prems have u: "\<not> lo_locked r (dev s)"
    and t: "fst (get_system_time r (dev s)) \<le> start + 100000"
    and rest: "locks_at r start (snd (get_system_time r (dev s))) k"
    unfolding locks_at_Suc by simp_all
  let ?s' = "s\<lparr>dev := snd (get_system_time r (dev s))\<rparr>"
  from rest have "locks_at r start (dev ?s') k" by simp
  from Suc.IH [OF this] have "wait_lo_locked r start ?s'
      = Some (Inr (), s\<lparr>dev := poll_dev r (Suc k) (dev s)\<rparr>)" by simp
  with u t show ?case
    by (subst wait_lo_locked.simps) (auto simp: lo_locked_def split_beta)
qed

lemma wait_lo_locked_cases:
  assumes "wait_lo_locked r start s = Some y"
  shows "(fst y = Inl Lock_timeout
            \<and> (\<exists>k. times_out_at r start (dev s) k
                  \<and> snd y = s\<lparr>dev := poll_dev r (Suc k) (dev s)\<rparr>))
       \<or> (fst y = Inr ()
            \<and> (\<exists>k. locks_at r start (dev s) k \<and> snd y = s\<lparr>dev := poll_dev r k (dev s)\<rparr>))"
  using assms
proof (induction rule: wait_lo_locked.raw_induct [rotated 1, consumes 1])
  case (1 loop r start s y)
  show ?case
  proof (cases "lo_locked r (dev s)")
    case True
    with 1(2) have y: "y = (Inr (), s)" by (simp add: lo_locked_def)
    have "locks_at r start (dev s) 0 \<and> snd y = s\<lparr>dev := poll_dev r 0 (dev s)\<rparr>"
      using True y by (simp add: locks_at_0)
    then have "\<exists>k. locks_at r start (dev s) k \<and> snd y = s\<lparr>dev := poll_dev r k (dev s)\<rparr>" ..
    with y show ?thesis by simp
  next
    case False
    let ?now = "fst (get_system_time r (dev s))"
    let ?s' = "s\<lparr>dev := snd (get_system_time r (dev s))\<rparr>"
    show ?thesis
    proof (cases "start + 100000 < ?now")
      case True
      with 1(2) False have y: "y = (Inl Lock_timeout, ?s')"
        by (auto simp: lo_locked_def split_beta)
      have "times_out_at r start (dev s) 0 \<and> snd y = s\<lparr>dev := poll_dev r (Suc 0) (dev s)\<rparr>"
        using True False y by (simp add: times_out_at_0)
      then have "\<exists>k. times_out_at r start (dev s) k
          \<and> snd y = s\<lparr>dev := poll_dev r (Suc k) (dev s)\<rparr>" ..
      with y show ?thesis by simp
    next
      case late: False
      with 1(2) False have rec: "loop r start ?s' = Some y"
        by (auto simp: lo_locked_def split_beta)
      from late have t: "?now \<le> start + 100000" by simp
      from 1(1) [OF rec] consider
        (out) k where "fst y = Inl Lock_timeout" "times_out_at r start (dev ?s') k"
          "snd y = ?s'\<lparr>dev := poll_dev r (Suc k) (dev ?s')\<rparr>"
      | (lock) k where "fst y = Inr ()" "locks_at r start (dev ?s') k"
          "snd y = ?s'\<lparr>dev := poll_dev r k (dev ?s')\<rparr>"
        by (elim disjE conjE exE) blast+
      then show ?thesis
      proof cases
        case out
        have "times_out_at r start (dev s) (Suc k)
            \<and> snd y = s\<lparr>dev := poll_dev r (Suc (Suc k)) (dev s)\<rparr>"
          using out(2,3) False t by (simp add: times_out_at_Suc)
        then have "\<exists>k. times_out_at r start (dev s) k
            \<and> snd y = s\<lparr>dev := poll_dev r (Suc k) (dev s)\<rparr>" ..
        with out(1) show ?thesis by (intro disjI1 conjI)
      next
        case lock
        have "locks_at r start (dev s) (Suc k) \<and> snd y = s\<lparr>dev := poll_dev r (Suc k) (dev s)\<rparr>"
          using lock(2,3) False t by (simp add: locks_at_Suc)
        then have "\<exists>k. locks_at r start (dev s) k \<and> snd y = s\<lparr>dev := poll_dev r k (dev s)\<rparr>" ..
        with lock(1) show ?thesis by (intro disjI2 conjI)
      qed
    qed
  qed
qed

lemma tune_rx_and_tx_unfold:
  "tune_rx_and_tx r f offs s =
     (case wait_lo_locked r (wait_start r f offs (dev s))
             (s\<lparr>dev := wait_dev r f offs (dev s), trace := trace s @ [Ev_set_rx_freq f]\<rparr>) of
        None \<Rightarrow> None
      | Some (Inl e, s') \<Rightarrow> Some (Inl e, s')
      | Some (Inr _, s') \<Rightarrow> Some (Inr (get_rx_freq r (dev s')), s'))"
  by (simp add: tune_rx_and_tx_def wait_start_def wait_dev_def tuned_dev_def Let_def split_beta)

lemma tune_times_out:
  assumes "times_out_at r (wait_start r f offs (dev s)) (wait_dev r f offs (dev s)) k"
  shows "tune_rx_and_tx r f offs s
           = Some (Inl Lock_timeout,
                   s\<lparr>dev := poll_dev r (Suc k) (wait_dev r f offs (dev s)),
                     trace := trace s @ [Ev_set_rx_freq f]\<rparr>)"
proof -
  let ?s0 = "s\<lparr>dev := wait_dev r f offs (dev s), trace := trace s @ [Ev_set_rx_freq f]\<rparr>"
  from assms have "times_out_at r (wait_start r f offs (dev s)) (dev ?s0) k" by simp
  from wait_times_out [OF this] show ?thesis unfolding tune_rx_and_tx_unfold by simp
qed

lemma tune_locks:
  assumes "locks_at r (wait_start r f offs (dev s)) (wait_dev r f offs (dev s)) k"
  shows "tune_rx_and_tx r f offs s
           = Some (Inr (get_rx_freq r (poll_dev r k (wait_dev r f offs (dev s)))),
                   s\<lparr>dev := poll_dev r k (wait_dev r f offs (dev s)),
                     trace := trace s @ [Ev_set_rx_freq f]\<rparr>)"
proof -
  let ?s0 = "s\<lparr>dev := wait_dev r f offs (dev s), trace := trace s @ [Ev_set_rx_freq f]\<rparr>"
  from assms have "locks_at r (wait_start r f offs (dev s)) (dev ?s0) k" by simp
  from wait_locks [OF this] show ?thesis unfolding tune_rx_and_tx_unfold by simp
qed

lemma tune_error_cases:
  assumes "tune_rx_and_tx r f offs s = Some (Inl e, s1)"
  shows "e = Lock_timeout
       \<and> (\<exists>k. times_out_at r (wait_start r f offs (dev s)) (wait_dev r f offs (dev s)) k
             \<and> s1 = s\<lparr>dev := poll_dev r (Suc k) (wait_dev r f offs (dev s)),
                       trace := trace s @ [Ev_set_rx_freq f]\<rparr>)"
proof -
  let ?s0 = "s\<lparr>dev := wait_dev r f offs (dev s), trace := trace s @ [Ev_set_rx_freq f]\<rparr>"
  from assms have w: "wait_lo_locked r (wait_start r f offs (dev s)) ?s0 = Some (Inl e, s1)"
    unfolding tune_rx_and_tx_unfold by (auto split: option.splits sum.splits prod.splits)
  from wait_lo_locked_cases [OF w] obtain k where
    "e = Lock_timeout" "times_out_at r (wait_start r f offs (dev s)) (dev ?s0) k"
    "s1 = ?s0\<lparr>dev := poll_dev r (Suc k) (dev ?s0)\<rparr>" by auto
  then have "e = Lock_timeout"
    "times_out_at r (wait_start r f offs (dev s)) (wait_dev r f offs (dev s)) k
       \<and> s1 = s\<lparr>dev := poll_dev r (Suc k) (wait_dev r f offs (dev s)),
                 trace := trace s @ [Ev_set_rx_freq f]\<rparr>" by simp_all
  then show ?thesis by blast
qed

lemma tune_error_iff:
  "tune_rx_and_tx r f offs s = Some (Inl e, s1) \<longleftrightarrow>
     e = Lock_timeout
       \<and> (\<exists>k. times_out_at r (wait_start r f offs (dev s)) (wait_dev r f offs (dev s)) k
             \<and> s1 = s\<lparr>dev := poll_dev r (Suc k) (wait_dev r f offs (dev s)),
                       trace := trace s @ [Ev_set_rx_freq f]\<rparr>)"
proof
  assume "tune_rx_and_tx r f offs s = Some (Inl e, s1)"
  then show "e = Lock_timeout
       \<and> (\<exists>k. times_out_at r (wait_start r f offs (dev s)) (wait_dev r f offs (dev s)) k
             \<and> s1 = s\<lparr>dev := poll_dev r (Suc k) (wait_dev r f offs (dev s)),
                       trace := trace s @ [Ev_set_rx_freq f]\<rparr>)" by (rule tune_error_cases)
next
  assume "e = Lock_timeout
       \<and> (\<exists>k. times_out_at r (wait_start r f offs (dev s)) (wait_dev r f offs (dev s)) k
             \<and> s1 = s\<lparr>dev := poll_dev r (Suc k) (wait_dev r f offs (dev s)),
                       trace := trace s @ [Ev_set_rx_freq f]\<rparr>)"
  then obtain k where e: "e = Lock_timeout"
    and k: "times_out_at r (wait_start r f offs (dev s)) (wait_dev r f offs (dev s)) k"
    and s1: "s1 = s\<lparr>dev := poll_dev r (Suc k) (wait_dev r f offs (dev s)),
                       trace := trace s @ [Ev_set_rx_freq f]\<rparr>" by blast
  from tune_times_out [OF k] e s1 show "tune_rx_and_tx r f offs s = Some (Inl e, s1)" by simp
qed

lemma rx_lo_loop_abort:
  assumes "rx_lo_i < double_add range_stop (- 50000000)"
    and "tune_rx_and_tx r rx_lo_i (tx_offset opts) s = Some (Inl e, s1)"
  shows "rx_lo_loop r c opts rx_lo_i range_stop results s = Some (Inl e, s1)"
    and "tuned_freqs (new_events s s1) = [rx_lo_i]"
proof -
  show "rx_lo_loop r c opts rx_lo_i range_stop results s = Some (Inl e, s1)"
    using assms by (rule rx_lo_loop_tune_error)
  from tune_rx_and_tx_trace [OF assms(2)] show "tuned_freqs (new_events s s1) = [rx_lo_i]"
    by (simp add: new_events_def)
qed

lemma main_aborted_at:
  assumes "UHD_SAFE_MAIN r c opts s = Some (Inl e, s')" and "has_cal_antennas r s"
  shows "\<exists>m res sk. tuned_freqs (new_events s s')
             = map (\<lambda>i. sweep_value (freq_step opts) i (sweep_start r opts s)) [0..<Suc m]
          \<and> sweep_body r c opts (sweep_value (freq_step opts) m (sweep_start r opts s)) res sk
               = Some (Inl e, s')"
proof -
  from main_aborted [OF assms(1)] assms(2) obtain evs m res sk where
    ne: "new_events s s' = Ev_create_tx_thread (tx_wave_ampl opts) # evs"
    and tf: "tuned_freqs evs
        = map (\<lambda>i. sweep_value (freq_step opts) i (sweep_start r opts s)) [0..<Suc m]"
    and body: "sweep_body r c opts (sweep_value (freq_step opts) m (sweep_start r opts s)) res sk
               = Some (Inl e, s')"
    by (elim disjE conjE exE) simp_all
  from ne tf have "tuned_freqs (new_events s s')
        = map (\<lambda>i. sweep_value (freq_step opts) i (sweep_start r opts s)) [0..<Suc m]" by simp
  with body show ?thesis by (intro exI [of _ m] exI [of _ res] exI [of _ sk] conjI)
qed

lemma main_returns_stored:
  assumes "\<not> help_flag opts" and "has_cal_antennas r s"
    and "2 \<le> num_search_steps c" and "tune_ok r" and "capture_ok r"
    and "\<not> sweep_value (freq_step opts) n (sweep_start r opts s) < sweep_stop r opts s"
  shows "\<exists>s2 results. UHD_SAFE_MAIN r c opts s = Some (Inr 0, s2)
           \<and> stored_results (new_events s s2) = [results]"
proof -
  from main_returns [OF assms] obtain s2 where
    run: "UHD_SAFE_MAIN r c opts s = Some (Inr 0, s2)" by blast
  from main_completed_shutdown [OF run assms(1)] obtain results where
    "stored_results (new_events s s2) = [results]" by blast
  with run show ?thesis by blast
qed

text \<open>
  Claim C7, as amended. The tuning routine raises an error exactly when its wait times out:
  an LO is unlocked at every poll up to one that is followed by a reading of the clock later
  than 100 ms after the start of the wait; the error is the lock timeout. A poll that finds
  both LOs locked ends the wait without error whenever the readings before it were within the
  100 ms, however late the poll itself is. An error of the tuning at a swept frequency ends
  the loop over the frequencies at once, in the state the failed tuning left, with no further
  frequency tuned, and leaves \<open>UHD_SAFE_MAIN\<close> as this error; a run that an error leaves has
  stored no results, and the frequency of the failing step is the last one it tuned to.
  Conversely, a run that completes the sweep has stored exactly one table; on a device on
  which every tuning locks and no capture fails (with at least two search steps) the run
  completes and stores its table if the loop variable, increased by the step in double
  arithmetic, reaches the bound after some number of passes, and it never returns if the
  loop variable stays below the bound.
\<close>

theorem lock_timeout_aborts_sweep:
  "(tune_rx_and_tx r f offs s = Some (Inl e, s1) \<longleftrightarrow>
      e = Lock_timeout
      \<and> (\<exists>k. times_out_at r (wait_start r f offs (dev s)) (wait_dev r f offs (dev s)) k
            \<and> s1 = s\<lparr>dev := poll_dev r (Suc k) (wait_dev r f offs (dev s)),
                      trace := trace s @ [Ev_set_rx_freq f]\<rparr>))
   \<and> (locks_at r (wait_start r f offs (dev s)) (wait_dev r f offs (dev s)) k \<longrightarrow>
        tune_rx_and_tx r f offs s
          = Some (Inr (get_rx_freq r (poll_dev r k (wait_dev r f offs (dev s)))),
                  s\<lparr>dev := poll_dev r k (wait_dev r f offs (dev s)),
                    trace := trace s @ [Ev_set_rx_freq f]\<rparr>))
   \<and> (rx_lo_i < double_add range_stop (- 50000000)
        \<and> tune_rx_and_tx r rx_lo_i (tx_offset opts) s = Some (Inl e, s1) \<longrightarrow>
      rx_lo_loop r c opts rx_lo_i range_stop results s = Some (Inl e, s1)
        \<and> tuned_freqs (new_events s s1) = [rx_lo_i])
   \<and> (\<not> help_flag opts \<and> has_cal_antennas r s
        \<and> rx_lo_loop r c opts (sweep_start r opts s) (range_end r opts s) []
             (started r opts s) = Some (Inl e, s') \<longrightarrow>
      UHD_SAFE_MAIN r c opts s = Some (Inl e, s'))
   \<and> (UHD_SAFE_MAIN r c opts s = Some (Inl e, s') \<longrightarrow>
        stored_results (new_events s s') = []
        \<and> (has_cal_antennas r s \<longrightarrow>
             (\<exists>m res sk. tuned_freqs (new_events s s')
                  = map (\<lambda>i. sweep_value (freq_step opts) i (sweep_start r opts s)) [0..<Suc m]
                \<and> sweep_body r c opts (sweep_value (freq_step opts) m (sweep_start r opts s))
                     res sk = Some (Inl e, s'))))
   \<and> (\<not> help_flag opts \<and> UHD_SAFE_MAIN r c opts s = Some (Inr v, s') \<longrightarrow>
        (\<exists>results. stored_results (new_events s s') = [results]))
   \<and> (\<not> help_flag opts \<and> has_cal_antennas r s \<and> 2 \<le> num_search_steps c
        \<and> tune_ok r \<and> capture_ok r
        \<and> \<not> sweep_value (freq_step opts) n (sweep_start r opts s) < sweep_stop r opts s \<longrightarrow>
        (\<exists>s2 results. UHD_SAFE_MAIN r c opts s = Some (Inr 0, s2)
           \<and> stored_results (new_events s s2) = [results]))
   \<and> (\<not> help_flag opts \<and> has_cal_antennas r s \<and> 2 \<le> num_search_steps c
        \<and> tune_ok r \<and> capture_ok r
        \<and> (\<forall>n. sweep_value (freq_step opts) n (sweep_start r opts s) < sweep_stop r opts s)
        \<longrightarrow> UHD_SAFE_MAIN r c opts s = None)"
proof (intro conjI impI)
  show "tune_rx_and_tx r f offs s = Some (Inl e, s1) \<longleftrightarrow>
      e = Lock_timeout
      \<and> (\<exists>k. times_out_at r (wait_start r f offs (dev s)) (wait_dev r f offs (dev s)) k
            \<and> s1 = s\<lparr>dev := poll_dev r (Suc k) (wait_dev r f offs (dev s)),
                      trace := trace s @ [Ev_set_rx_freq f]\<rparr>)"
    by (rule tune_error_iff)
next
  assume "locks_at r (wait_start r f offs (dev s)) (wait_dev r f offs (dev s)) k"
  then show "tune_rx_and_tx r f offs s
          = Some (Inr (get_rx_freq r (poll_dev r k (wait_dev r f offs (dev s)))),
                  s\<lparr>dev := poll_dev r k (wait_dev r f offs (dev s)),
                    trace := trace s @ [Ev_set_rx_freq f]\<rparr>)"
    by (rule tune_locks)
next
  assume a: "rx_lo_i < double_add range_stop (- 50000000)
        \<and> tune_rx_and_tx r rx_lo_i (tx_offset opts) s = Some (Inl e, s1)"
  show "rx_lo_loop r c opts rx_lo_i range_stop results s = Some (Inl e, s1)"
    by (rule rx_lo_loop_abort(1) [OF a [THEN conjunct1] a [THEN conjunct2]])
  show "tuned_freqs (new_events s s1) = [rx_lo_i]"
    by (rule rx_lo_loop_abort(2) [OF a [THEN conjunct1] a [THEN conjunct2]])
next
  assume a: "\<not> help_flag opts \<and> has_cal_antennas r s
        \<and> rx_lo_loop r c opts (sweep_start r opts s) (range_end r opts s) []
             (started r opts s) = Some (Inl e, s')"
  show "UHD_SAFE_MAIN r c opts s = Some (Inl e, s')"
    by (rule main_loop_error [OF a [THEN conjunct1] a [THEN conjunct2, THEN conjunct1]
          a [THEN conjunct2, THEN conjunct2]])
next
  assume "UHD_SAFE_MAIN r c opts s = Some (Inl e, s')"
  then show "stored_results (new_events s s') = []" by (rule main_aborted_quiet(1))
next
  assume "UHD_SAFE_MAIN r c opts s = Some (Inl e, s')" and "has_cal_antennas r s"
  then show "\<exists>m res sk. tuned_freqs (new_events s s')
                  = map (\<lambda>i. sweep_value (freq_step opts) i (sweep_start r opts s)) [0..<Suc m]
                \<and> sweep_body r c opts (sweep_value (freq_step opts) m (sweep_start r opts s))
                     res sk = Some (Inl e, s')"
    by (rule main_aborted_at)
next
  assume a: "\<not> help_flag opts \<and> UHD_SAFE_MAIN r c opts s = Some (Inr v, s')"
  from main_completed_shutdown [OF a [THEN conjunct2] a [THEN conjunct1]]
  show "\<exists>results. stored_results (new_events s s') = [results]" by blast
next
  assume a: "\<not> help_flag opts \<and> has_cal_antennas r s \<and> 2 \<le> num_search_steps c
        \<and> tune_ok r \<and> capture_ok r
        \<and> \<not> sweep_value (freq_step opts) n (sweep_start r opts s) < sweep_stop r opts s"
  then have h: "\<not> help_flag opts" "has_cal_antennas r s" "2 \<le> num_search_steps c"
    "tune_ok r" "capture_ok r"
    "\<not> sweep_value (freq_step opts) n (sweep_start r opts s) < sweep_stop r opts s"
    by simp_all
  show "\<exists>s2 results. UHD_SAFE_MAIN r c opts s = Some (Inr 0, s2)
           \<and> stored_results (new_events s s2) = [results]"
    by (rule main_returns_stored [OF h])
next
  assume a: "\<not> help_flag opts \<and> has_cal_antennas r s \<and> 2 \<le> num_search_steps c
        \<and> tune_ok r \<and> capture_ok r
        \<and> (\<forall>n. sweep_value (freq_step opts) n (sweep_start r opts s) < sweep_stop r opts s)"
  then have h: "\<not> help_flag opts" "has_cal_antennas r s" "2 \<le> num_search_steps c"
    "tune_ok r" "capture_ok r"
    "\<forall>n. sweep_value (freq_step opts) n (sweep_start r opts s) < sweep_stop r opts s"
    by simp_all
  show "UHD_SAFE_MAIN r c opts s = None" by (rule main_diverges [OF h])
qed

lemma sim_wait:
  "wait_start (sim_radio l m c rng) f offs d = sim_time d + 50000"
  "wait_dev (sim_radio l m c rng) f offs d = d\<lparr>sim_rx_freq := f, sim_time := sim_time d + 110000\<rparr>"
  "wait_start (late_radio t rng) f offs d = sim_time d + 50000"
  "wait_dev (late_radio t rng) f offs d = d\<lparr>sim_rx_freq := f, sim_time := sim_time d + 110000\<rparr>"
  by (simp_all add: wait_start_def wait_dev_def tuned_dev_def late_radio_def sim_radio_def)

lemma small_step_sums:
  "double_add 150000000 0 = 150000000"
  "double_add 150000000 (round_double (1/1000000000)) = 150000000"
  by (simp_all add: double_add_def round_double_def binary_exponent.simps round_even_def)

theorem lock_timeout_aborts_sweep_witness:
  "times_out_at (sim_radio False 0 0 (100000000, 300000000)) 50000
       \<lparr>sim_time = 110000, sim_rx_freq = 150000000\<rparr> (Suc 0)
   \<and> tune_rx_and_tx (sim_radio False 0 0 (100000000, 300000000)) 150000000 934400 (sim_state 4)
     = Some (Inl Lock_timeout,
          \<lparr>dev = \<lparr>sim_time = 230000, sim_rx_freq = 150000000\<rparr>, buff = [0, 0, 0, 0],
           trace = [Ev_set_rx_freq 150000000]\<rparr>)
   \<and> rx_lo_loop (sim_radio False 0 0 (100000000, 300000000)) (sim_utils 5 7 35) default_options
        150000000 300000000 [] (sim_state 4)
     = Some (Inl Lock_timeout,
          \<lparr>dev = \<lparr>sim_time = 230000, sim_rx_freq = 150000000\<rparr>, buff = [0, 0, 0, 0],
           trace = [Ev_set_rx_freq 150000000]\<rparr>)
   \<and> tuned_freqs (new_events (sim_state 4)
          \<lparr>dev = \<lparr>sim_time = 230000, sim_rx_freq = 150000000\<rparr>, buff = [0, 0, 0, 0],
           trace = [Ev_set_rx_freq 150000000]\<rparr>) = [150000000]
   \<and> UHD_SAFE_MAIN (sim_radio False 0 0 (100000000, 300000000)) (sim_utils 5 7 35)
        default_options (sim_state 4)
     = Some (Inl Lock_timeout,
          \<lparr>dev = \<lparr>sim_time = 230000, sim_rx_freq = 150000000\<rparr>, buff = replicate 10000 0,
           trace = [Ev_create_tx_thread (7/10), Ev_set_rx_freq 150000000]\<rparr>)
   \<and> stored_results (new_events (sim_state 4)
          \<lparr>dev = \<lparr>sim_time = 230000, sim_rx_freq = 150000000\<rparr>, buff = replicate 10000 0,
           trace = [Ev_create_tx_thread (7/10), Ev_set_rx_freq 150000000]\<rparr>) = []
   \<and> (\<exists>m res sk. tuned_freqs (new_events (sim_state 4)
          \<lparr>dev = \<lparr>sim_time = 230000, sim_rx_freq = 150000000\<rparr>, buff = replicate 10000 0,
           trace = [Ev_create_tx_thread (7/10), Ev_set_rx_freq 150000000]\<rparr>)
          = map (\<lambda>i. sweep_value 10000000 i 150000000) [0..<Suc m]
        \<and> sweep_body (sim_radio False 0 0 (100000000, 300000000)) (sim_utils 5 7 35)
             default_options (sweep_value 10000000 m 150000000) res sk
           = Some (Inl Lock_timeout,
                \<lparr>dev = \<lparr>sim_time = 230000, sim_rx_freq = 150000000\<rparr>, buff = replicate 10000 0,
                 trace = [Ev_create_tx_thread (7/10), Ev_set_rx_freq 150000000]\<rparr>))
   \<and> locks_at (late_radio 160000 (100000000, 300000000)) 50000
       \<lparr>sim_time = 110000, sim_rx_freq = 150000000\<rparr> (Suc 0)
   \<and> tune_rx_and_tx (late_radio 160000 (100000000, 300000000)) 150000000 934400 (sim_state 4)
     = Some (Inr 150000000,
          \<lparr>dev = \<lparr>sim_time = 170000, sim_rx_freq = 150000000\<rparr>, buff = [0, 0, 0, 0],
           trace = [Ev_set_rx_freq 150000000]\<rparr>)
   \<and> (\<exists>s2 results. UHD_SAFE_MAIN (sim_radio True 0 0 (100000000, 300000000)) (sim_utils 5 7 35)
          default_options (sim_state 4) = Some (Inr 0, s2)
        \<and> stored_results (new_events (sim_state 4) s2) = [results])
   \<and> UHD_SAFE_MAIN (sim_radio True 0 0 (100000000, 300000000)) (sim_utils 5 7 35)
        (default_options\<lparr>freq_step := 0\<rparr>) (sim_state 4) = None
   \<and> UHD_SAFE_MAIN (sim_radio True 0 0 (100000000, 300000000)) (sim_utils 5 7 35)
        (default_options\<lparr>freq_step := round_double (1/1000000000)\<rparr>) (sim_state 4) = None"
proof -
  let ?u = "sim_radio False 0 0 (100000000, 300000000)" and ?c = "sim_utils 5 7 35"
  let ?l = "sim_radio True 0 0 (100000000, 300000000)"
  let ?late = "late_radio 160000 (100000000, 300000000)"
  let ?d = "\<lparr>sim_time = 110000, sim_rx_freq = 150000000\<rparr>"
  let ?s1 = "\<lparr>dev = \<lparr>sim_time = 230000, sim_rx_freq = 150000000\<rparr>, buff = [0, 0, 0, 0::complex],
           trace = [Ev_set_rx_freq 150000000]\<rparr>"
  let ?s2 = "\<lparr>dev = \<lparr>sim_time = 230000, sim_rx_freq = 150000000\<rparr>,
           buff = replicate 10000 (0::complex),
           trace = [Ev_create_tx_thread (7/10), Ev_set_rx_freq 150000000]\<rparr>"
  let ?s3 = "\<lparr>dev = \<lparr>sim_time = 170000, sim_rx_freq = 150000000\<rparr>, buff = [0, 0, 0, 0::complex],
           trace = [Ev_set_rx_freq 150000000]\<rparr>"
  note T = lock_timeout_aborts_sweep
  have o: "\<not> help_flag default_options" "tx_offset default_options = 934400"
    "freq_step default_options = 10000000" "tx_wave_ampl default_options = 7/10"
    "nsamps default_options = 10000"
    by (simp_all add: default_options_def)
  have w: "wait_start ?u 150000000 934400 (dev (sim_state 4)) = 50000"
    "wait_dev ?u 150000000 934400 (dev (sim_state 4)) = ?d"
    "wait_start ?late 150000000 934400 (dev (sim_state 4)) = 50000"
    "wait_dev ?late 150000000 934400 (dev (sim_state 4)) = ?d"
    by (simp_all add: sim_wait sim_state_def sim_dev0_def)
  have out: "times_out_at ?u 50000 ?d (Suc 0)"
    by (simp add: times_out_at_Suc times_out_at_0 lo_locked_def sim_radio_def)
  have st1: "(sim_state 4)\<lparr>dev := poll_dev ?u (Suc (Suc 0)) ?d,
                           trace := trace (sim_state 4) @ [Ev_set_rx_freq 150000000]\<rparr> = ?s1"
    by (simp add: sim_state_def sim_radio_def numeral_eq_Suc)
  have "Lock_timeout = Lock_timeout
      \<and> (\<exists>k. times_out_at ?u (wait_start ?u 150000000 934400 (dev (sim_state 4)))
               (wait_dev ?u 150000000 934400 (dev (sim_state 4))) k
            \<and> ?s1 = (sim_state 4)\<lparr>dev := poll_dev ?u (Suc k)
                         (wait_dev ?u 150000000 934400 (dev (sim_state 4))),
                      trace := trace (sim_state 4) @ [Ev_set_rx_freq 150000000]\<rparr>)"
    unfolding w using out st1 [symmetric] by blast
  then have tune: "tune_rx_and_tx ?u 150000000 934400 (sim_state 4) = Some (Inl Lock_timeout, ?s1)"
    by (rule T [THEN conjunct1, THEN iffD2])
  have lt: "(150000000::real) < double_add 300000000 (- 50000000)" by (simp add: double_sums)
  from tune have tune': "tune_rx_and_tx ?u 150000000 (tx_offset default_options) (sim_state 4)
      = Some (Inl Lock_timeout, ?s1)" unfolding o(2) .
  note A = T [where c = ?c and results = "[]", THEN conjunct2, THEN conjunct2, THEN conjunct1,
      THEN mp, OF conjI [OF lt tune']]
  have loop: "rx_lo_loop ?u ?c default_options 150000000 300000000 [] (sim_state 4)
                = Some (Inl Lock_timeout, ?s1)" by (rule A [THEN conjunct1])
  have tf: "tuned_freqs (new_events (sim_state 4) ?s1) = [150000000]" by (rule A [THEN conjunct2])
  let ?st = "started ?u default_options (sim_state 4)"
  have st2: "?st\<lparr>dev := poll_dev ?u (Suc (Suc 0)) ?d,
                 trace := trace ?st @ [Ev_set_rx_freq 150000000]\<rparr> = ?s2"
    by (simp add: started_def sim_state_def sim_radio_def o)
  have dst: "dev ?st = sim_dev0"
    by (simp add: started_def configure_def sim_state_def sim_radio_def)
  have w2: "wait_start ?u 150000000 934400 (dev ?st) = 50000"
    "wait_dev ?u 150000000 934400 (dev ?st) = ?d"
    unfolding dst by (simp_all add: sim_wait sim_dev0_def)
  have "Lock_timeout = Lock_timeout
      \<and> (\<exists>k. times_out_at ?u (wait_start ?u 150000000 934400 (dev ?st))
               (wait_dev ?u 150000000 934400 (dev ?st)) k
            \<and> ?s2 = ?st\<lparr>dev := poll_dev ?u (Suc k) (wait_dev ?u 150000000 934400 (dev ?st)),
                      trace := trace ?st @ [Ev_set_rx_freq 150000000]\<rparr>)"
    unfolding w2 using out st2 [symmetric] by blast
  then have "tune_rx_and_tx ?u 150000000 934400 ?st = Some (Inl Lock_timeout, ?s2)"
    by (rule T [THEN conjunct1, THEN iffD2])
  then have tune2: "tune_rx_and_tx ?u 150000000 (tx_offset default_options) ?st
      = Some (Inl Lock_timeout, ?s2)" unfolding o(2) .
  from T [where c = ?c and results = "[]", THEN conjunct2, THEN conjunct2, THEN conjunct1,
      THEN mp, OF conjI [OF lt tune2], THEN conjunct1]
  have "rx_lo_loop ?u ?c default_options (sweep_start ?u default_options (sim_state 4))
          (range_end ?u default_options (sim_state 4)) [] ?st = Some (Inl Lock_timeout, ?s2)"
    by (simp add: sim_sweep_range double_sums)
  from T [THEN conjunct2, THEN conjunct2, THEN conjunct2, THEN conjunct1, THEN mp,
      OF conjI [OF o(1) conjI [OF has_cal_sim this]]]
  have main: "UHD_SAFE_MAIN ?u ?c default_options (sim_state 4) = Some (Inl Lock_timeout, ?s2)" .
  note B = T [THEN conjunct2, THEN conjunct2, THEN conjunct2, THEN conjunct2, THEN conjunct1,
      THEN mp, OF main]
  have quiet: "stored_results (new_events (sim_state 4) ?s2) = []" by (rule B [THEN conjunct1])
  have at: "\<exists>m res sk. tuned_freqs (new_events (sim_state 4) ?s2)
          = map (\<lambda>i. sweep_value 10000000 i 150000000) [0..<Suc m]
        \<and> sweep_body ?u ?c default_options (sweep_value 10000000 m 150000000) res sk
           = Some (Inl Lock_timeout, ?s2)"
    using B [THEN conjunct2, THEN mp, OF has_cal_sim]
    unfolding sim_sweep_range double_sums o(3) .
  have lock: "locks_at ?late 50000 ?d (Suc 0)"
    by (simp add: locks_at_Suc locks_at_0 lo_locked_def late_radio_def sim_radio_def)
  from T [where r = ?late and f = 150000000 and offs = 934400 and s = "sim_state 4"
      and k = "Suc 0", THEN conjunct2, THEN conjunct1, THEN mp, unfolded w, OF lock]
  have late: "tune_rx_and_tx ?late 150000000 934400 (sim_state 4) = Some (Inr 150000000, ?s3)"
    by (simp add: late_radio_def sim_radio_def sim_state_def numeral_eq_Suc)
  have n: "2 \<le> num_search_steps ?c" by (simp add: sim_utils_def)
  have g: "\<not> help_flag default_options \<and> has_cal_antennas ?l (sim_state 4)
        \<and> 2 \<le> num_search_steps ?c \<and> tune_ok ?l \<and> capture_ok ?l
        \<and> \<not> sweep_value (freq_step default_options) 10 (sweep_start ?l default_options (sim_state 4))
             < sweep_stop ?l default_options (sim_state 4)"
    using o(1) has_cal_sim n tune_ok_sim capture_ok_sim sim_sweep_ends by (intro conjI)
  have fin: "\<exists>s2 results. UHD_SAFE_MAIN ?l ?c default_options (sim_state 4) = Some (Inr 0, s2)
        \<and> stored_results (new_events (sim_state 4) s2) = [results]"
    by (rule T [THEN conjunct2, THEN conjunct2, THEN conjunct2, THEN conjunct2, THEN conjunct2,
          THEN conjunct2, THEN conjunct1, THEN mp, OF g])
  have never: "UHD_SAFE_MAIN ?l ?c (default_options\<lparr>freq_step := x\<rparr>) (sim_state 4) = None"
    if "double_add 150000000 x = 150000000" for x
  proof -
    let ?o = "default_options\<lparr>freq_step := x\<rparr>"
    have "\<forall>n. sweep_value (freq_step ?o) n (sweep_start ?l ?o (sim_state 4))
               < sweep_stop ?l ?o (sim_state 4)"
      by (simp add: sim_sweep_range double_sums sweep_value_fixed [OF that])
    moreover have "\<not> help_flag ?o" by (simp add: default_options_def)
    ultimately have "\<not> help_flag ?o \<and> has_cal_antennas ?l (sim_state 4)
        \<and> 2 \<le> num_search_steps ?c \<and> tune_ok ?l \<and> capture_ok ?l
        \<and> (\<forall>n. sweep_value (freq_step ?o) n (sweep_start ?l ?o (sim_state 4))
               < sweep_stop ?l ?o (sim_state 4))"
      using has_cal_sim n tune_ok_sim capture_ok_sim by (intro conjI)
    then show ?thesis
      by (rule T [THEN conjunct2, THEN conjunct2, THEN conjunct2, THEN conjunct2, THEN conjunct2,
          THEN conjunct2, THEN conjunct2, THEN mp])
  qed
  from out tune loop tf main quiet at lock late fin never [OF small_step_sums(1)]
    never [OF small_step_sums(2)]
  show ?thesis by (intro conjI)
qed

theorem lock_timeout_counterexample:
  "wait_start (late_radio 160000 (100000000, 300000000)) 150000000 934400 (dev (sim_state 4)) = 50000
   \<and> \<not> lo_locked (late_radio 160000 (100000000, 300000000))
         \<lparr>sim_time = 50000 + 100000, sim_rx_freq = 150000000\<rparr>
   \<and> tune_rx_and_tx (late_radio 160000 (100000000, 300000000)) 150000000 934400 (sim_state 4)
     = Some (Inr 150000000,
          \<lparr>dev = \<lparr>sim_time = 170000, sim_rx_freq = 150000000\<rparr>, buff = [0, 0, 0, 0],
           trace = [Ev_set_rx_freq 150000000]\<rparr>)
   \<and> tune_ok (sim_radio True 0 0 (100000000, 300000000))
   \<and> capture_ok (sim_radio True 0 0 (100000000, 300000000))
   \<and> UHD_SAFE_MAIN (sim_radio True 0 0 (100000000, 300000000)) (sim_utils 5 7 35)
        (default_options\<lparr>freq_step := 0\<rparr>) (sim_state 4) = None"
proof -
  let ?l = "sim_radio True 0 0 (100000000, 300000000)" and ?c = "sim_utils 5 7 35"
  let ?late = "late_radio 160000 (100000000, 300000000)"
  let ?d = "\<lparr>sim_time = 110000, sim_rx_freq = 150000000\<rparr>"
  have w: "wait_start ?late 150000000 934400 (dev (sim_state 4)) = 50000"
    "wait_dev ?late 150000000 934400 (dev (sim_state 4)) = ?d"
    by (simp_all add: sim_wait sim_state_def sim_dev0_def)
  have u: "\<not> lo_locked ?late \<lparr>sim_time = 50000 + 100000, sim_rx_freq = 150000000\<rparr>"
    by (simp add: lo_locked_def late_radio_def sim_radio_def)
  have lock: "locks_at ?late 50000 ?d (Suc 0)"
    by (simp add: locks_at_Suc locks_at_0 lo_locked_def late_radio_def sim_radio_def)
  from tune_locks [of ?late 150000000 934400 "sim_state 4" "Suc 0", unfolded w, OF lock]
  have late: "tune_rx_and_tx ?late 150000000 934400 (sim_state 4)
     = Some (Inr 150000000,
          \<lparr>dev = \<lparr>sim_time = 170000, sim_rx_freq = 150000000\<rparr>, buff = [0, 0, 0, 0],
           trace = [Ev_set_rx_freq 150000000]\<rparr>)"
    by (simp add: late_radio_def sim_radio_def sim_state_def numeral_eq_Suc)
  let ?o = "default_options\<lparr>freq_step := 0\<rparr>"
  have n: "2 \<le> num_search_steps ?c" by (simp add: sim_utils_def)
  have "\<forall>n. sweep_value (freq_step ?o) n (sweep_start ?l ?o (sim_state 4))
               < sweep_stop ?l ?o (sim_state 4)"
    by (simp add: sim_sweep_range double_sums sweep_value_fixed [OF small_step_sums(1)])
  moreover have "\<not> help_flag ?o" by (simp add: default_options_def)
  ultimately have "UHD_SAFE_MAIN ?l ?c ?o (sim_state 4) = None"
    using main_diverges [OF _ has_cal_sim n tune_ok_sim capture_ok_sim] by blast
  with w(1) u late tune_ok_sim capture_ok_sim show ?thesis by (intro conjI)
qed

subsection \<open>The window and the measurements of a round\<close>



lemma suppression_of_best [simp]: "suppression_of (best_of st) = best_suppression st"
  by (simp add: suppression_of_def best_of_def)







subsection \<open>The centre of the window as a grid point\<close>








end
